theory Spec2Isabelle
  imports Main
begin

section \<open>The symbol table (src/parser/symbols.ts)\<close>

subsection \<open>Syntax tree\<close>

text \<open>
  Modelled from the spec: the node types and \<open>Utils.walk\<close> live in \<open>./nodes\<close>, which is
  not among the sources. The spec (section 3) gives the closed set of node kinds:
  Missing, Literal, VariableName, VariableDefinition, QualifiedValue, Query and
  QueryDocument; a Query is a sequence of terms, a QueryDocument a sequence of
  statements. Source ranges are left out: no function modelled here reads them.
  \<open>fillSymbols\<close> reads \<open>node.name.value\<close> of a VariableDefinition, so the name of a
  definition is a VariableName node carrying a string.
\<close>

datatype VariableNameNode = VariableNameNode (nameValue: string)

datatype Node =
    Missing
  | Literal string
  | VariableName VariableNameNode
  | VariableDefinition VariableNameNode Node
  | QualifiedValue Node Node
  | Query "Node list"
  | QueryDocument "Node list"

text \<open>
  Modelled from the spec: \<open>Utils.walk(node, callback)\<close> ("re-walk the tree") calls the
  callback on every node of the tree, parents before children, children left to right.
  \<open>walk n\<close> is the sequence of nodes the callback is called on.
\<close>

fun walk :: "Node \<Rightarrow> Node list" where
  "walk Missing = [Missing]"
| "walk (Literal s) = [Literal s]"
| "walk (VariableName v) = [VariableName v]"
| "walk (VariableDefinition v b) = VariableDefinition v b # VariableName v # walk b"
| "walk (QualifiedValue a b) = QualifiedValue a b # walk a @ walk b"
| "walk (Query ns) = Query ns # concat (map walk ns)"
| "walk (QueryDocument ns) = QueryDocument ns # concat (map walk ns)"

subsection \<open>Value domains and the built-in qualifiers\<close>

datatype ValueType =
    Number | Date | BaseBranch | HeadBranch | Label | Language
  | Milestone | Orgname | ProjectBoard | Repository | Teamname | Username

text \<open>\<open>type Value = ValueType | Set<string>[]\<close>\<close>

datatype Value = Semantic ValueType | Enumeration "string set list"

definition qualifiers :: "(string \<times> Value) list" where
  "qualifiers = [
    (''type'', Enumeration [{''pr'', ''issue''}]),
    (''updated'', Semantic Date),
    (''in'', Enumeration [{''title'', ''body'', ''comments''}]),
    (''org'', Semantic Orgname),
    (''repo'', Semantic Repository),
    (''user'', Semantic Username),
    (''state'', Enumeration [{''open'', ''closed''}]),
    (''assignee'', Semantic Username),
    (''author'', Semantic Username),
    (''mentions'', Semantic Username),
    (''team'', Semantic Teamname),
    (''commenter'', Semantic Username),
    (''involves'', Semantic Username),
    (''label'', Semantic Label),
    (''linked'', Enumeration [{''pr'', ''issue''}]),
    (''milestone'', Semantic Milestone),
    (''project'', Semantic ProjectBoard),
    (''language'', Semantic Language),
    (''comments'', Semantic Number),
    (''interactions'', Semantic Number),
    (''reactions'', Semantic Number),
    (''created'', Semantic Date),
    (''closed'', Semantic Date),
    (''archived'', Enumeration [{''true'', ''false''}]),
    (''is'', Enumeration [{''locked'', ''unlocked''}, {''merged'', ''unmerged''},
        {''public'', ''private''}, {''open'', ''closed''}, {''pr'', ''issue''}]),
    (''no'', Enumeration [{''label'', ''milestone'', ''assignee'', ''project''}]),
    (''status'', Enumeration [{''pending'', ''success'', ''failure''}]),
    (''base'', Semantic BaseBranch),
    (''head'', Semantic HeadBranch),
    (''draft'', Enumeration [{''true'', ''false''}]),
    (''review-requested'', Semantic Username),
    (''review'', Enumeration [{''none'', ''required'', ''approved''}]),
    (''reviewed-by'', Semantic Username),
    (''team-review-requested'', Semantic Teamname),
    (''merged'', Semantic Date)]"

definition requiresPrType :: "string list" where
  "requiresPrType = [
    ''status'', ''base'', ''head'', ''draft'', ''review-requested'', ''review'',
    ''reviewed-by'', ''team-review-requested'', ''merged'']"

subsection \<open>SymbolInfo and SymbolTable\<close>

text \<open>
  \<open>interface SymbolInfo { name; uri?; def?; value? }\<close>: an optional member that is
  absent is \<open>None\<close>. A \<open>Uri\<close> is represented by its string.
\<close>

record SymbolInfo =
  name :: string
  uri :: "string option"
  def :: "Node option"
  val :: "Value option"

text \<open>
  \<open>_data\<close> is a JavaScript \<open>Set<SymbolInfo>\<close>: it holds object references, iterates in
  insertion order, and \<open>add\<close> is without effect only for a reference it already holds.
  The constructor and \<open>fillSymbols\<close>, the only callers, pass an object literal, which is
  a fresh reference each time and is never mutated afterwards, so the set is the list
  of the added objects in the order they were added.
\<close>

record SymbolTable =
  data :: "SymbolInfo list"

definition add :: "SymbolInfo \<Rightarrow> SymbolTable \<Rightarrow> SymbolTable" where
  "add info t = t\<lparr>data := data t @ [info]\<rparr>"

text \<open>The constructor: one entry per built-in qualifier, in the order of the map.\<close>

definition newSymbolTable :: SymbolTable where
  "newSymbolTable =
     fold (\<lambda>(key, v). add \<lparr>name = key, uri = None, def = None, val = Some v\<rparr>)
       qualifiers \<lparr>data = []\<rparr>"

text \<open>\<open>get\<close>: the first entry, in iteration order, whose name matches; else undefined.\<close>

fun get_loop :: "SymbolInfo list \<Rightarrow> string \<Rightarrow> SymbolInfo option" where
  "get_loop [] n = None"
| "get_loop (info # rest) n = (if name info = n then Some info else get_loop rest n)"

definition get :: "SymbolTable \<Rightarrow> string \<Rightarrow> SymbolInfo option" where
  "get t n = get_loop (data t) n"

text \<open>\<open>getAll\<close>: the generator's yields, as the list of what it yields.\<close>

definition getAll :: "SymbolTable \<Rightarrow> string \<Rightarrow> SymbolInfo list" where
  "getAll t n = filter (\<lambda>info. name info = n) (data t)"

definition all_infos :: "SymbolTable \<Rightarrow> SymbolInfo list" where
  "all_infos t = data t"

text \<open>
  \<open>fillSymbols\<close>. The module variable \<open>symbols\<close> is passed in and returned: \<open>None\<close> is
  the variable before its first assignment. The callback adds one entry for every
  VariableDefinition that \<open>walk\<close> visits.
\<close>

fun fillCallback :: "string \<Rightarrow> Node \<Rightarrow> SymbolTable \<Rightarrow> SymbolTable" where
  "fillCallback u (VariableDefinition v b) t =
     add \<lparr>name = nameValue v, uri = Some u, def = Some (VariableDefinition v b), val = None\<rparr> t"
| "fillCallback u node t = t"

definition fillSymbols :: "Node \<Rightarrow> string \<Rightarrow> SymbolTable option \<Rightarrow> SymbolTable" where
  "fillSymbols query u symbols =
     (let symbols1 = (case symbols of None \<Rightarrow> newSymbolTable | Some t \<Rightarrow> t)
      in fold (fillCallback u) (walk query) symbols1)"

section \<open>The notebook kernel\<close>

subsection \<open>escapeHtml\<close>

definition entityMap :: "(char \<times> string) list" where
  "entityMap = [
    (CHR ''&'', ''&amp;''),
    (CHR ''<'', ''&lt;''),
    (CHR ''>'', ''&gt;''),
    (CHR 0x22, ''&quot;''),
    (CHR 0x27, ''&#39;''),
    (CHR ''/'', ''&#x2F;''),
    (CHR 0x60, ''&#x60;''),
    (CHR ''='', ''&#x3D;'')]"

text \<open>
  The character class of the regular expression \<open>/[&<>"'`=\/]/g\<close>: ampersand, less-than,
  greater-than, double quote (0x22), single quote (0x27), backtick (0x60), equals, slash.
\<close>

definition escapeClass :: "char list" where
  "escapeClass = [CHR ''&'', CHR ''<'', CHR ''>'', CHR 0x22, CHR 0x27, CHR 0x60, CHR ''='', CHR ''/'']"

text \<open>
  \<open>string.replace(re, s => entityMap[s])\<close> with a global one-character pattern: every
  character of the class is replaced by what the callback returns, every other character
  is copied. A key missing from \<open>entityMap\<close> would make the callback return undefined,
  which \<open>replace\<close> writes as the text \<open>undefined\<close>. A string is the list of its code
  units; the class holds ASCII characters only, so code units above 0xFF, which \<open>char\<close>
  does not have, would be copied like any other.
\<close>

definition escapeChar :: "char \<Rightarrow> string" where
  "escapeChar c =
     (if c \<in> set escapeClass
      then (case map_of entityMap c of Some e \<Rightarrow> e | None \<Rightarrow> ''undefined'')
      else [c])"

definition escapeHtml :: "string \<Rightarrow> string" where
  "escapeHtml string = concat (map escapeChar string)"

subsection \<open>Items and comparators (namespace cmp)\<close>

text \<open>
  \<open>SearchIssuesAndPullRequestsResponseItemsItem\<close>, with the members that the modelled
  code reads. \<open>created_at\<close> and \<open>updated_at\<close> hold the number that \<open>Date.parse\<close> returns
  for the member's text (milliseconds since the epoch); the comparators read the members
  only through \<open>Date.parse\<close>. Numbers are integers: a comment count and a parsed date
  are.
\<close>

record Item =
  url :: string
  repository_url :: string
  title :: string
  comments :: int
  created_at :: int
  updated_at :: int

type_synonym ItemComparator = "Item \<Rightarrow> Item \<Rightarrow> int"

definition invert :: "('a \<Rightarrow> 'a \<Rightarrow> int) \<Rightarrow> ('a \<Rightarrow> 'a \<Rightarrow> int)" where
  "invert compare = (\<lambda>a b. compare a b * (- 1))"

definition compareByComments :: ItemComparator where
  "compareByComments a b = comments a - comments b"

definition compareByCreated :: ItemComparator where
  "compareByCreated a b = created_at a - created_at b"

definition compareByUpdated :: ItemComparator where
  "compareByUpdated a b = updated_at a - updated_at b"

definition byName :: "(string \<times> ItemComparator) list" where
  "byName = [
    (''comments'', compareByComments),
    (''created'', compareByCreated),
    (''updated'', compareByUpdated)]"

text \<open>
  \<open>Array.prototype.sort(compare)\<close>: a stable sort; an element goes before another when
  the comparator is negative, and elements that compare as zero keep their order.
\<close>

fun insertSorted :: "('a \<Rightarrow> 'a \<Rightarrow> int) \<Rightarrow> 'a \<Rightarrow> 'a list \<Rightarrow> 'a list" where
  "insertSorted compare x [] = [x]"
| "insertSorted compare x (y # ys) =
     (if compare x y \<le> 0 then x # y # ys else y # insertSorted compare x ys)"

fun arraySort :: "('a \<Rightarrow> 'a \<Rightarrow> int) \<Rightarrow> 'a list \<Rightarrow> 'a list" where
  "arraySort compare [] = []"
| "arraySort compare (x # xs) = insertSorted compare x (arraySort compare xs)"

subsection \<open>Sub-queries and the post-processing of the fetched items\<close>

text \<open>
  One element of \<open>allQueryData\<close>: the compiled query string with its optional sort field
  and order. (\<open>project.queryData\<close>, which produces the list, is not among the sources;
  the list is an input here.)
\<close>

record QueryData =
  q :: string
  sort' :: "string option"
  order' :: "string option"

text \<open>
  \<open>const [first] = allQueryData;
  const comparator = allQueryData.length >= 2 && allQueryData.every(item => item.sort === first.sort)
     && cmp.byName.get(first.sort!);\<close>
  A falsy result is \<open>None\<close>.
\<close>

definition comparatorOf :: "QueryData list \<Rightarrow> ItemComparator option" where
  "comparatorOf allQueryData =
     (case allQueryData of
        [] \<Rightarrow> None
      | first # _ \<Rightarrow>
          if 2 \<le> length allQueryData \<and> list_all (\<lambda>item. sort' item = sort' first) allQueryData
          then (case sort' first of None \<Rightarrow> None | Some s \<Rightarrow> map_of byName s)
          else None)"

text \<open>
  \<open>if (comparator) { allItems.sort(first.sort === 'asc' ? cmp.invert(comparator) : comparator); }\<close>
  The test reads the sort member, as the source does.
\<close>

definition sortItems :: "QueryData list \<Rightarrow> Item list \<Rightarrow> Item list" where
  "sortItems allQueryData allItems =
     (case comparatorOf allQueryData of
        None \<Rightarrow> allItems
      | Some comparator \<Rightarrow>
          arraySort (if sort' (hd allQueryData) = Some ''asc'' then invert comparator else comparator)
            allItems)"

text \<open>
  The render loop: an item whose url is in \<open>seen\<close> is skipped, any other is recorded in
  \<open>seen\<close> and rendered. The result is the sequence of rendered items; the markdown and
  the HTML list exactly these, in this order, and \<open>count\<close> is their number.
\<close>

fun renderLoop :: "Item list \<Rightarrow> string set \<Rightarrow> Item list" where
  "renderLoop [] seen = []"
| "renderLoop (item # rest) seen =
     (if url item \<in> seen then renderLoop rest seen
      else item # renderLoop rest (insert (url item) seen))"

definition rendered :: "QueryData list \<Rightarrow> Item list \<Rightarrow> Item list" where
  "rendered allQueryData allItems = renderLoop (sortItems allQueryData allItems) {}"

text \<open>A number as template literals print it (a count is a natural number).\<close>

fun string_of_nat :: "nat \<Rightarrow> string" where
  "string_of_nat n =
     (if n < 10 then [char_of (48 + n)]
      else string_of_nat (n div 10) @ [char_of (48 + n mod 10)])"

declare string_of_nat.simps [simp del]

definition statusLine :: "nat \<Rightarrow> bool \<Rightarrow> string" where
  "statusLine count tooLarge = string_of_nat count @ (if tooLarge then ''+'' else []) @ '' results''"

subsection \<open>NotebookCellExecution\<close>

datatype NotebookCellRunState = Running | Idle | Success | Error

record CellMetadata =
  runState :: "NotebookCellRunState option"
  runStartTime :: "int option"
  lastRunDuration :: "int option"
  statusMessage :: "string option"

text \<open>
  A cell output. The rich output stands for the three entries of \<open>data\<close>: the rendered
  items (what the HTML and the markdown list, in order) and the array stored under
  \<open>x-application/github-issues\<close>. The error output carries \<open>ename\<close> and \<open>evalue\<close>.
\<close>

datatype CellOutput =
    RichOutput "Item list" "Item list"
  | ErrorOutput string string

record NotebookCell =
  metadata :: CellMetadata
  outputs :: "CellOutput list"

text \<open>
  What the code catches: \<open>isError\<close> is \<open>err instanceof Error\<close>, \<open>errName\<close> and
  \<open>errMessage\<close> are its name and message, \<open>json\<close> is \<open>JSON.stringify(err, undefined, 4)\<close>.
\<close>

record Thrown =
  isError :: bool
  errName :: string
  errMessage :: string
  json :: string

text \<open>
  The state that executions share: the static counter \<open>_tokenPool\<close>, the static map
  \<open>_tokens\<close> from cells to tokens, and the cells themselves. A cell is named by a
  number (its identity as a key of the WeakMap). The counter is a natural number: it
  grows by one for each execution created, and a JavaScript number counts exactly far
  beyond any number of executions a session can create.
\<close>

record World =
  tokenPool :: nat
  tokens :: "nat \<rightharpoonup> nat"
  cells :: "nat \<Rightarrow> NotebookCell"

text \<open>
  The members of one execution object. \<open>cts\<close> is the state of its cancellation token
  source: \<open>True\<close> once \<open>cts.cancel()\<close> has run, which is what
  \<open>cts.token.isCancellationRequested\<close> reads.
\<close>

record NotebookCellExecution =
  token :: nat
  originalRunState :: "NotebookCellRunState option"
  startTime :: int
  cell :: nat
  cts :: bool

definition setMetadata :: "nat \<Rightarrow> (CellMetadata \<Rightarrow> CellMetadata) \<Rightarrow> World \<Rightarrow> World" where
  "setMetadata c f w = w\<lparr>cells := (cells w)(c := (cells w c)\<lparr>metadata := f (metadata (cells w c))\<rparr>)\<rparr>"

definition setOutputs :: "nat \<Rightarrow> CellOutput list \<Rightarrow> World \<Rightarrow> World" where
  "setOutputs c outs w = w\<lparr>cells := (cells w)(c := (cells w c)\<lparr>outputs := outs\<rparr>)\<rparr>"

text \<open>
  \<open>new NotebookCellExecution(cell)\<close>; \<open>now\<close> is what \<open>Date.now()\<close> returns. The member
  initialisers run first (\<open>_token = _tokenPool++\<close>), then the constructor's body.
\<close>

definition newExecution :: "nat \<Rightarrow> int \<Rightarrow> World \<Rightarrow> NotebookCellExecution \<times> World" where
  "newExecution c now w =
     (let tok = tokenPool w;
          w1 = w\<lparr>tokenPool := tokenPool w + 1\<rparr>;
          w2 = w1\<lparr>tokens := (tokens w1)(c \<mapsto> tok)\<rparr>;
          orig = runState (metadata (cells w2 c));
          w3 = setMetadata c (\<lambda>m. m\<lparr>runState := Some Running\<rparr>) w2;
          w4 = setMetadata c (\<lambda>m. m\<lparr>runStartTime := Some now\<rparr>) w3
      in (\<lparr>token = tok, originalRunState = orig, startTime = now, cell = c, cts = False\<rparr>, w4))"

definition isLatest :: "NotebookCellExecution \<Rightarrow> World \<Rightarrow> bool" where
  "isLatest e w = (tokens w (cell e) = Some (token e))"

definition cancel :: "NotebookCellExecution \<Rightarrow> World \<Rightarrow> NotebookCellExecution \<times> World" where
  "cancel e w =
     (if isLatest e w
      then (e\<lparr>cts := True\<rparr>,
            (setMetadata (cell e) (\<lambda>m. m\<lparr>runState := originalRunState e\<rparr>) w)
              \<lparr>tokens := (tokens w)(cell e := None)\<rparr>)
      else (e, w))"

definition resolve :: "NotebookCellExecution \<Rightarrow> CellOutput list \<Rightarrow> string option \<Rightarrow> int \<Rightarrow> World \<Rightarrow> World" where
  "resolve e outs message now w =
     (if isLatest e w
      then setOutputs (cell e) outs
             (setMetadata (cell e) (\<lambda>m. m\<lparr>runState := Some Success,
                 lastRunDuration := Some (now - startTime e), statusMessage := message\<rparr>) w)
      else w)"

definition reject :: "NotebookCellExecution \<Rightarrow> Thrown \<Rightarrow> World \<Rightarrow> World" where
  "reject e err w =
     (if isLatest e w
      then setOutputs (cell e)
             [ErrorOutput
                (if isError err \<and> errName err \<noteq> [] then errName err else ''error'')
                (if isError err \<and> errMessage err \<noteq> [] then errMessage err else json err)]
             (setMetadata (cell e) (\<lambda>m. m\<lparr>statusMessage := Some ''Error'',
                 lastRunDuration := None, runState := Some Error\<rparr>) w)
      else w)"

text \<open>
  What can happen to the shared state, in any order and for any execution object:
  an execution is created for some cell, or one of the three guarded methods runs.
\<close>

inductive step :: "World \<Rightarrow> World \<Rightarrow> bool" where
  step_new: "step w (snd (newExecution c now w))"
| step_cancel: "step w (snd (cancel e w))"
| step_resolve: "step w (resolve e outs message now w)"
| step_reject: "step w (reject e err w)"

text \<open>The state before any execution exists: counter zero, no token.\<close>

definition initialWorld :: "(nat \<Rightarrow> NotebookCell) \<Rightarrow> World" where
  "initialWorld cs = \<lparr>tokenPool = 0, tokens = Map.empty, cells = cs\<rparr>"

text \<open>
  A token is stale for a cell when it has been handed out and is not the cell's current
  token.
\<close>

definition stale :: "nat \<Rightarrow> nat \<Rightarrow> World \<Rightarrow> bool" where
  "stale tok c w = (tok < tokenPool w \<and> tokens w c \<noteq> Some tok)"

subsection \<open>Fetching: the paging loop of \<open>_doExecuteCell\<close>\<close>

text \<open>
  The argument of \<open>octokit.search.issuesAndPullRequests\<close> and the part of its result
  that the code reads (\<open>response.data.items\<close>, \<open>response.data.total_count\<close>).
\<close>

record Request =
  req_q :: string
  req_sort :: "string option"
  req_order :: "string option"
  per_page :: nat
  page :: nat

record Response =
  items :: "Item list"
  total_count :: int

text \<open>
  The surroundings of one run. The function suspends at each \<open>await\<close>; the awaits of a
  run are numbered from zero.
  \<^item> \<open>search k rq\<close>: what the request \<open>rq\<close>, awaited as await number \<open>k\<close>, settles to: a
    response, or a thrown value (a network failure, or the abort that the
    cancellation listener triggers).
  \<^item> \<open>lib k\<close>: whether \<open>await this.octokit.lib()\<close>, as await number \<open>k\<close>, throws.
  \<^item> \<open>cancelFires k\<close>: whether, while the run is suspended at await number \<open>k\<close>, the host
    calls \<open>execution.cancel()\<close> (the listeners that \<open>executeCell\<close> registers for
    changes of the cell and of its text, or \<open>cancelCellExecution\<close>).
  \<^item> \<open>finishTime\<close>: what \<open>Date.now()\<close> returns in \<open>resolve\<close>.
\<close>

record Env =
  search :: "nat \<Rightarrow> Request \<Rightarrow> Thrown + Response"
  lib :: "nat \<Rightarrow> Thrown option"
  cancelFires :: "nat \<Rightarrow> bool"
  finishTime :: int

text \<open>One call of the search API: the await it was, the request, and what came back.\<close>

record Exchange =
  at :: nat
  request :: Request
  reply :: "Thrown + Response"

text \<open>
  The variables of the run: the execution object and the shared state, the number of
  awaits so far, \<open>allItems\<close> and \<open>tooLarge\<close>. \<open>trace\<close> is not a variable of the source: it
  records the calls of the search API in the order they were made.
\<close>

record FetchState =
  exec :: NotebookCellExecution
  world :: World
  clock :: nat
  allItems :: "Item list"
  tooLarge :: bool
  trace :: "Exchange list"

definition await :: "Env \<Rightarrow> FetchState \<Rightarrow> FetchState" where
  "await env st =
     (let (e1, w1) = (if cancelFires env (clock st) then cancel (exec st) (world st)
                      else (exec st, world st))
      in st\<lparr>exec := e1, world := w1, clock := clock st + 1\<rparr>)"

text \<open>
  The \<open>while\<close> loop for one sub-query, from \<open>page\<close> and \<open>count\<close>. The loop has no bound of
  its own (a server that keeps answering with empty pages and a positive total keeps it
  running), so the model takes fuel, one unit per iteration; \<open>None\<close> is fuel used up. A
  result \<open>(Some err, st)\<close> is the exception \<open>err\<close> leaving the loop in state \<open>st\<close>.
\<close>

fun fetchPages ::
  "nat \<Rightarrow> Env \<Rightarrow> QueryData \<Rightarrow> nat \<Rightarrow> nat \<Rightarrow> FetchState \<Rightarrow> (Thrown option \<times> FetchState) option" where
  "fetchPages 0 env queryData pg count st = None"
| "fetchPages (Suc fuel) env queryData pg count st =
     (if cts (exec st) then Some (None, st)
      else
        let rq = \<lparr>req_q = q queryData, req_sort = sort' queryData, req_order = order' queryData,
                  per_page = 100, page = pg\<rparr>;
            k = clock st;
            st1 = await env st
        in case search env k rq of
             Inl err \<Rightarrow>
               Some (Some err, st1\<lparr>trace := trace st1 @ [\<lparr>at = k, request = rq, reply = Inl err\<rparr>]\<rparr>)
           | Inr response \<Rightarrow>
               let count1 = count + length (items response);
                   st2 = st1\<lparr>allItems := allItems st1 @ items response,
                             tooLarge := (tooLarge st1 \<or> 1000 < total_count response),
                             trace := trace st1 @ [\<lparr>at = k, request = rq, reply = Inr response\<rparr>]\<rparr>
               in if min 1000 (total_count response) \<le> int count1 then Some (None, st2)
                  else fetchPages fuel env queryData (pg + 1) count1 st2)"

text \<open>
  The \<open>for\<close> loop over \<open>allQueryData\<close>, inside the \<open>try\<close>: for each sub-query
  \<open>await this.octokit.lib()\<close>, then the paging loop from page 1 and count 0.
\<close>

fun fetchAll ::
  "nat \<Rightarrow> Env \<Rightarrow> QueryData list \<Rightarrow> FetchState \<Rightarrow> (Thrown option \<times> FetchState) option" where
  "fetchAll fuel env [] st = Some (None, st)"
| "fetchAll fuel env (queryData # rest) st =
     (let k = clock st; st1 = await env st
      in case lib env k of
           Some err \<Rightarrow> Some (Some err, st1)
         | None \<Rightarrow>
             (case fetchPages fuel env queryData 1 0 st1 of
                None \<Rightarrow> None
              | Some (Some err, st2) \<Rightarrow> Some (Some err, st2)
              | Some (None, st2) \<Rightarrow> fetchAll fuel env rest st2))"

text \<open>
  \<open>_doExecuteCell\<close>, with \<open>allQueryData\<close> given. The first await is
  \<open>openTextDocument\<close>. An exception from the fetch is rejected; otherwise the items are
  sorted, rendered and resolved. The result is the exception caught, if any, the shared
  state afterwards, and the state of the fetch (for its trace).
\<close>

definition initialFetchState :: "NotebookCellExecution \<Rightarrow> World \<Rightarrow> FetchState" where
  "initialFetchState e w =
     \<lparr>exec = e, world = w, clock = 0, allItems = [], tooLarge = False, trace = []\<rparr>"

definition doExecuteCell ::
  "nat \<Rightarrow> Env \<Rightarrow> QueryData list \<Rightarrow> NotebookCellExecution \<Rightarrow> World
     \<Rightarrow> (Thrown option \<times> World \<times> FetchState) option" where
  "doExecuteCell fuel env allQueryData e w =
     (case fetchAll fuel env allQueryData (await env (initialFetchState e w)) of
        None \<Rightarrow> None
      | Some (Some err, st) \<Rightarrow> Some (Some err, reject (exec st) err (world st), st)
      | Some (None, st) \<Rightarrow>
          let sorted = sortItems allQueryData (allItems st);
              shown = renderLoop sorted {};
              count = length shown
          in Some (None,
                   resolve (exec st) [RichOutput shown sorted]
                     (Some (statusLine count (tooLarge st))) (finishTime env) (world st),
                   st))"

text \<open>
  \<open>executeCell\<close>: cancel the execution that \<open>_cellExecutions\<close> holds for the cell, if any
  (\<open>prev\<close>), create the new execution, run it.
\<close>

definition executeCell ::
  "nat \<Rightarrow> Env \<Rightarrow> QueryData list \<Rightarrow> nat \<Rightarrow> int \<Rightarrow> NotebookCellExecution option \<Rightarrow> World
     \<Rightarrow> (Thrown option \<times> World \<times> FetchState) option" where
  "executeCell fuel env allQueryData c now prev w =
     (let w1 = (case prev of None \<Rightarrow> w | Some old \<Rightarrow> snd (cancel old w));
          (e, w2) = newExecution c now w1
      in doExecuteCell fuel env allQueryData e w2)"

text \<open>The items of the responses in a trace, in order.\<close>

definition received :: "Exchange list \<Rightarrow> Item list" where
  "received xs = concat (map (\<lambda>x. case reply x of Inl err \<Rightarrow> [] | Inr response \<Rightarrow> items response) xs)"

subsection \<open>Predicates on the state of a run\<close>

text \<open>
  \<open>cancelSeen\<close>: the execution is the latest for its cell or has been cancelled, and if
  the host called its cancel during an earlier await, its token source is cancelled.
  It holds when the run starts and after every step of it.
\<close>

definition cancelSeen :: "Env \<Rightarrow> FetchState \<Rightarrow> bool" where
  "cancelSeen env st \<longleftrightarrow>
     (isLatest (exec st) (world st) \<or> cts (exec st)) \<and>
     (\<forall>k<clock st. cancelFires env k \<longrightarrow> cts (exec st))"

text \<open>
  \<open>quiet n\<close>: in addition, every call of the search API recorded after the first \<open>n\<close>
  was made when no cancel had fired during an earlier await.
\<close>

definition quiet :: "Env \<Rightarrow> nat \<Rightarrow> FetchState \<Rightarrow> bool" where
  "quiet env n st \<longleftrightarrow>
     cancelSeen env st \<and> (\<forall>x\<in>set (drop n (trace st)). \<forall>k<at x. \<not> cancelFires env k)"

text \<open>
  \<open>runWorld e w1\<close>: for a run of the execution \<open>e\<close> started in the shared state \<open>w1\<close>,
  the execution object and the shared state are as at the start until a cancel fires,
  and as the first cancel left them from then on.
\<close>

definition runWorld :: "NotebookCellExecution \<Rightarrow> World \<Rightarrow> Env \<Rightarrow> FetchState \<Rightarrow> bool" where
  "runWorld e w1 env st \<longleftrightarrow>
     isLatest e w1 \<and> \<not> cts e \<and>
     (if \<exists>k<clock st. cancelFires env k
      then world st = snd (cancel e w1) \<and> exec st = e\<lparr>cts := True\<rparr>
      else world st = w1 \<and> exec st = e)"

text \<open>
  \<open>pagesSpec\<close> relates the states before and after one paging loop to the calls \<open>new\<close>
  it made; \<open>unitSpec\<close> does the same for the loop over all sub-queries.
\<close>

definition pagesSpec ::
  "Env \<Rightarrow> QueryData \<Rightarrow> nat \<Rightarrow> nat \<Rightarrow> FetchState \<Rightarrow> Thrown option \<Rightarrow> FetchState \<Rightarrow> Exchange list \<Rightarrow> bool" where
  "pagesSpec env qd pg count st r st' new \<longleftrightarrow>
     trace st' = trace st @ new
     \<and> allItems st' = allItems st @ received new
     \<and> tooLarge st' = (tooLarge st \<or> (\<exists>x\<in>set new. \<exists>resp. reply x = Inr resp \<and> 1000 < total_count resp))
     \<and> clock st' = clock st + length new
     \<and> (\<forall>i<length new.
          request (new ! i) = \<lparr>req_q = q qd, req_sort = sort' qd, req_order = order' qd,
                                per_page = 100, page = pg + i\<rparr>
          \<and> at (new ! i) = clock st + i
          \<and> reply (new ! i) = search env (clock st + i) (request (new ! i))
          \<and> (Suc i < length new \<longrightarrow>
               (\<exists>resp. reply (new ! i) = Inr resp
                  \<and> int (count + length (received (take (Suc i) new))) < min 1000 (total_count resp))))
     \<and> (r = None \<longrightarrow> (\<forall>x\<in>set new. \<exists>resp. reply x = Inr resp))
     \<and> (r = None \<and> \<not> cts (exec st') \<longrightarrow>
           new \<noteq> [] \<and> (\<exists>resp. reply (last new) = Inr resp
              \<and> min 1000 (total_count resp) \<le> int (count + length (received new))))
     \<and> (\<forall>err. r = Some err \<longrightarrow> new \<noteq> [] \<and> reply (last new) = Inl err)
     \<and> (cts (exec st) \<longrightarrow> new = [])"

definition unitSpec :: "FetchState \<Rightarrow> Thrown option \<Rightarrow> FetchState \<Rightarrow> Exchange list \<Rightarrow> bool" where
  "unitSpec st r st' new \<longleftrightarrow>
     trace st' = trace st @ new
     \<and> allItems st' = allItems st @ received new
     \<and> tooLarge st' = (tooLarge st \<or> (\<exists>x\<in>set new. \<exists>resp. reply x = Inr resp \<and> 1000 < total_count resp))
     \<and> (\<forall>x\<in>set new. per_page (request x) = 100)
     \<and> (r = None \<longrightarrow> (\<forall>x\<in>set new. \<exists>resp. reply x = Inr resp))
     \<and> (\<forall>i<length new. \<forall>err. reply (new ! i) = Inl err \<longrightarrow> Suc i = length new \<and> r = Some err)"

section \<open>Properties of the symbol table\<close>

lemma get_loop_append:
  "get_loop (xs @ ys) n = (case get_loop xs n of Some i \<Rightarrow> Some i | None \<Rightarrow> get_loop ys n)"
  by (induction xs) auto

lemma fold_add_data: "data (fold add infos t) = data t @ infos"
  by (induction infos arbitrary: t) (auto simp: add_def)

lemma fold_fillCallback_data:
  "data (fold (fillCallback u) ns t) =
     data t @ [\<lparr>name = nameValue v, uri = Some u, def = Some (VariableDefinition v b), val = None\<rparr>.
                 VariableDefinition v b \<leftarrow> ns]"
proof (induction ns arbitrary: t)
  case Nil
  then show ?case by simp
next
  case (Cons n ns)
  then show ?case by (cases n) (simp_all add: add_def)
qed

lemma newSymbolTable_data:
  "data newSymbolTable =
     map (\<lambda>(key, v). \<lparr>name = key, uri = None, def = None, val = Some v\<rparr>) qualifiers"
proof -
  have "data (fold (\<lambda>(key, v). add \<lparr>name = key, uri = None, def = None, val = Some v\<rparr>) kvs t)
        = data t @ map (\<lambda>(key, v). \<lparr>name = key, uri = None, def = None, val = Some v\<rparr>) kvs"
    for kvs t
    by (induction kvs arbitrary: t) (auto simp: add_def)
  then show ?thesis by (simp add: newSymbolTable_def)
qed

lemma get_loop_builtin:
  "get_loop (map (\<lambda>(key, v). \<lparr>name = key, uri = None, def = None, val = Some v\<rparr>) kvs) n
     = map_option (\<lambda>v. \<lparr>name = n, uri = None, def = None, val = Some v\<rparr>) (map_of kvs n)"
  by (induction kvs) auto

text \<open>
  A name that already resolves keeps resolving to the same entry whatever is added
  later: \<open>get\<close> returns the first match in insertion order.
\<close>

lemma get_add_keeps: "get t n = Some i \<Longrightarrow> get (add j t) n = Some i"
  by (simp add: get_def add_def get_loop_append)

lemma getAll_add:
  "getAll (add j t) n = getAll t n @ (if name j = n then [j] else [])"
  by (simp add: getAll_def add_def)

text \<open>
  C2. The claim: of two entries added under one name, \<open>get\<close> returns the later one and
  \<open>getAll\<close> yields both. In the code, \<open>get\<close> returns the first entry in insertion order:
  after adding a definition of \<open>$x\<close> and then a second one, \<open>get\<close> returns the first
  (older) definition; \<open>getAll\<close> yields both, older first.
\<close>

theorem get_returns_first_added:
  "get (add \<lparr>name = ''$x'', uri = Some ''u'',
              def = Some (VariableDefinition (VariableNameNode ''$x'') (Query [Literal ''new''])),
              val = None\<rparr>
         (add \<lparr>name = ''$x'', uri = Some ''u'',
                 def = Some (VariableDefinition (VariableNameNode ''$x'') (Query [Literal ''old''])),
                 val = None\<rparr>
            newSymbolTable)) ''$x''
   = Some \<lparr>name = ''$x'', uri = Some ''u'',
            def = Some (VariableDefinition (VariableNameNode ''$x'') (Query [Literal ''old''])),
            val = None\<rparr>
   \<and> getAll (add \<lparr>name = ''$x'', uri = Some ''u'',
              def = Some (VariableDefinition (VariableNameNode ''$x'') (Query [Literal ''new''])),
              val = None\<rparr>
         (add \<lparr>name = ''$x'', uri = Some ''u'',
                 def = Some (VariableDefinition (VariableNameNode ''$x'') (Query [Literal ''old''])),
                 val = None\<rparr>
            newSymbolTable)) ''$x''
   = [\<lparr>name = ''$x'', uri = Some ''u'',
        def = Some (VariableDefinition (VariableNameNode ''$x'') (Query [Literal ''old''])),
        val = None\<rparr>,
      \<lparr>name = ''$x'', uri = Some ''u'',
        def = Some (VariableDefinition (VariableNameNode ''$x'') (Query [Literal ''new''])),
        val = None\<rparr>]"
  by (simp add: get_def getAll_def add_def newSymbolTable_data qualifiers_def)

text \<open>
  C3, as the code has it. \<open>fillSymbols\<close> removes nothing: the table it returns holds the
  entries of the table it was given (the built-in ones when there was none yet),
  followed by one entry per VariableDefinition of the tree, in the order of the walk,
  each with the definition's name, the node and the document's uri.
\<close>

theorem fillSymbols_appends:
  "data (fillSymbols query u symbols) =
     data (case symbols of None \<Rightarrow> newSymbolTable | Some t \<Rightarrow> t) @
     [\<lparr>name = nameValue v, uri = Some u, def = Some (VariableDefinition v b), val = None\<rparr>.
        VariableDefinition v b \<leftarrow> walk query]"
  by (simp add: fillSymbols_def fold_fillCallback_data)

text \<open>
  C3, as stated, fails: document \<open>doc\<close> first defines \<open>$a\<close>, is then reparsed to an empty
  tree and updated again; the entry for \<open>$a\<close> from the first update is still in the table.
\<close>

theorem fillSymbols_keeps_old_counterexample:
  "\<lparr>name = ''$a'', uri = Some ''doc'',
     def = Some (VariableDefinition (VariableNameNode ''$a'') (Query [Literal ''foo''])),
     val = None\<rparr>
     \<in> set (all_infos (fillSymbols (QueryDocument []) ''doc''
          (Some (fillSymbols
             (QueryDocument [VariableDefinition (VariableNameNode ''$a'') (Query [Literal ''foo''])])
             ''doc'' None))))"
  by (simp add: all_infos_def fillSymbols_def add_def)

text \<open>
  C10. Every name in \<open>requiresPrType\<close> is a key of \<open>qualifiers\<close>, and in a freshly
  constructed table, and in every table obtained from it by adding entries, \<open>get\<close>
  resolves the name to the built-in entry, which carries the declared value domain.
\<close>

theorem requiresPrType_builtin:
  "\<forall>n \<in> set requiresPrType. \<exists>v. map_of qualifiers n = Some v \<and>
      (\<forall>infos. get (fold add infos newSymbolTable) n
                 = Some \<lparr>name = n, uri = None, def = None, val = Some v\<rparr>)"
proof
  fix n assume n: "n \<in> set requiresPrType"
  then obtain v where v: "map_of qualifiers n = Some v"
    by (auto simp: requiresPrType_def qualifiers_def)
  have "get (fold add infos newSymbolTable) n
          = Some \<lparr>name = n, uri = None, def = None, val = Some v\<rparr>" for infos
    by (simp add: get_def fold_add_data get_loop_append newSymbolTable_data get_loop_builtin v)
  with v show "\<exists>v. map_of qualifiers n = Some v \<and>
      (\<forall>infos. get (fold add infos newSymbolTable) n
                 = Some \<lparr>name = n, uri = None, def = None, val = Some v\<rparr>)"
    by blast
qed

theorem requiresPrType_builtin_witness:
  "''merged'' \<in> set requiresPrType
   \<and> map_of qualifiers ''merged'' = Some (Semantic Date)
   \<and> get (fold add [] newSymbolTable) ''merged''
       = Some \<lparr>name = ''merged'', uri = None, def = None, val = Some (Semantic Date)\<rparr>"
proof -
  have m: "''merged'' \<in> set requiresPrType"
    by (simp add: requiresPrType_def)
  have q: "map_of qualifiers ''merged'' = Some (Semantic Date)"
    by (simp add: qualifiers_def)
  from requiresPrType_builtin [THEN bspec, OF m]
  obtain v where v: "map_of qualifiers ''merged'' = Some v"
    and g: "\<forall>infos. get (fold add infos newSymbolTable) ''merged''
                = Some \<lparr>name = ''merged'', uri = None, def = None, val = Some v\<rparr>"
    by blast
  from v q have "v = Semantic Date" by simp
  with g have "get (fold add [] newSymbolTable) ''merged''
          = Some \<lparr>name = ''merged'', uri = None, def = None, val = Some (Semantic Date)\<rparr>"
    by blast
  with m q show ?thesis by blast
qed

section \<open>Properties of escapeHtml and of the comparators\<close>

lemma escapeChar_cases:
  "escapeChar c =
     (if c = CHR ''&'' then ''&amp;''
      else if c = CHR ''<'' then ''&lt;''
      else if c = CHR ''>'' then ''&gt;''
      else if c = CHR 0x22 then ''&quot;''
      else if c = CHR 0x27 then ''&#39;''
      else if c = CHR 0x60 then ''&#x60;''
      else if c = CHR ''='' then ''&#x3D;''
      else if c = CHR ''/'' then ''&#x2F;''
      else [c])"
  by (simp add: escapeChar_def escapeClass_def entityMap_def)

lemma escapeChar_clean:
  "set (escapeChar c) \<inter>
     {CHR ''<'', CHR ''>'', CHR 0x22, CHR 0x27, CHR 0x60, CHR ''='', CHR ''/''} = {}"
  by (simp add: escapeChar_cases)

text \<open>
  C8, as stated, fails on the ampersand, which is not among the seven characters the
  claim names and yet is not preserved: it is replaced by its entity.
\<close>

theorem escapeHtml_amp_counterexample:
  "escapeHtml ''a&b'' = ''a&amp;b'' \<and> escapeHtml ''a&b'' \<noteq> ''a&b''"
  by (simp add: escapeHtml_def escapeChar_cases)

text \<open>
  C8, as the code has it. The result of \<open>escapeHtml\<close> contains none of the characters
  less-than, greater-than, double quote, single quote, backtick, equals and slash; each
  of these and the ampersand is replaced by its entity of the entity map, and every
  other character is kept, in order.
\<close>

theorem escapeHtml_entities:
  "set (escapeHtml s) \<inter>
     {CHR ''<'', CHR ''>'', CHR 0x22, CHR 0x27, CHR 0x60, CHR ''='', CHR ''/''} = {}
   \<and> escapeHtml s = concat (map (\<lambda>c.
       if c = CHR ''&'' then ''&amp;''
       else if c = CHR ''<'' then ''&lt;''
       else if c = CHR ''>'' then ''&gt;''
       else if c = CHR 0x22 then ''&quot;''
       else if c = CHR 0x27 then ''&#39;''
       else if c = CHR 0x60 then ''&#x60;''
       else if c = CHR ''='' then ''&#x3D;''
       else if c = CHR ''/'' then ''&#x2F;''
       else [c]) s)"
proof
  have "set (escapeHtml s) = (\<Union>c\<in>set s. set (escapeChar c))"
    by (simp add: escapeHtml_def)
  then show "set (escapeHtml s) \<inter>
     {CHR ''<'', CHR ''>'', CHR 0x22, CHR 0x27, CHR 0x60, CHR ''='', CHR ''/''} = {}"
    using escapeChar_clean by blast
next
  show "escapeHtml s = concat (map (\<lambda>c.
       if c = CHR ''&'' then ''&amp;''
       else if c = CHR ''<'' then ''&lt;''
       else if c = CHR ''>'' then ''&gt;''
       else if c = CHR 0x22 then ''&quot;''
       else if c = CHR 0x27 then ''&#39;''
       else if c = CHR 0x60 then ''&#x60;''
       else if c = CHR ''='' then ''&#x3D;''
       else if c = CHR ''/'' then ''&#x2F;''
       else [c]) s)"
    unfolding escapeHtml_def using escapeChar_cases by presburger
qed

text \<open>
  C9. For every comparator and every pair of arguments, the inverted comparator returns
  the negation of what the comparator returns, and inverting twice gives back a
  comparator that agrees with the original on every pair.
\<close>

theorem invert_negates:
  "invert c a b = - c a b \<and> invert (invert c) a b = c a b"
  by (simp add: invert_def)

section \<open>Properties of the post-processing\<close>

lemma comparatorOf_Some_iff:
  "comparatorOf qds \<noteq> None \<longleftrightarrow>
     2 \<le> length qds \<and> (\<forall>item \<in> set qds. sort' item = sort' (hd qds)) \<and>
     sort' (hd qds) \<in> {Some ''comments'', Some ''created'', Some ''updated''}"
  by (cases qds) (auto simp: comparatorOf_def byName_def list_all_iff split: option.splits)

lemma comparatorOf_not_asc:
  "comparatorOf qds = Some c \<Longrightarrow> sort' (hd qds) \<noteq> Some ''asc''"
  using comparatorOf_Some_iff[of qds] by auto

text \<open>
  The render loop drops exactly the items whose url an earlier item (or the initial
  \<open>seen\<close>) already has: the first occurrence of a url is kept.
\<close>

lemma renderLoop_snoc:
  "renderLoop (xs @ [x]) seen =
     renderLoop xs seen @ (if url x \<in> seen \<union> url ` set xs then [] else [x])"
  by (induction xs arbitrary: seen) auto

lemma renderLoop_distinct: "distinct (map url (renderLoop xs seen))"
proof (induction xs rule: rev_induct)
  case Nil
  show ?case by simp
next
  case (snoc x xs)
  have "url ` set (renderLoop xs seen) \<subseteq> url ` set xs" for seen
    by (induction xs arbitrary: seen) auto
  with snoc show ?case by (auto simp: renderLoop_snoc)
qed

text \<open>
  C1. The claim's input: two sub-queries, both with sort field \<open>created\<close> and order
  \<open>desc\<close>, that fetched A (created 2023-01-01) and B (2023-02-01), and C (2023-01-15);
  the dates are in milliseconds since the epoch. The code renders A, C, B: oldest first.
\<close>

theorem created_desc_output:
  "rendered
     [\<lparr>q = ''one'', sort' = Some ''created'', order' = Some ''desc''\<rparr>,
      \<lparr>q = ''two'', sort' = Some ''created'', order' = Some ''desc''\<rparr>]
     ([\<lparr>url = ''A'', repository_url = ''r'', title = ''a'', comments = 0,
         created_at = 1672531200000, updated_at = 1672531200000\<rparr>,
       \<lparr>url = ''B'', repository_url = ''r'', title = ''b'', comments = 0,
         created_at = 1675209600000, updated_at = 1675209600000\<rparr>] @
      [\<lparr>url = ''C'', repository_url = ''r'', title = ''c'', comments = 0,
         created_at = 1673740800000, updated_at = 1673740800000\<rparr>])
   = [\<lparr>url = ''A'', repository_url = ''r'', title = ''a'', comments = 0,
         created_at = 1672531200000, updated_at = 1672531200000\<rparr>,
      \<lparr>url = ''C'', repository_url = ''r'', title = ''c'', comments = 0,
         created_at = 1673740800000, updated_at = 1673740800000\<rparr>,
      \<lparr>url = ''B'', repository_url = ''r'', title = ''b'', comments = 0,
         created_at = 1675209600000, updated_at = 1675209600000\<rparr>]"
  by (simp add: rendered_def sortItems_def comparatorOf_def byName_def compareByCreated_def)

text \<open>
  C5, as stated, fails: two sub-queries that declare the same sort field \<open>reactions\<close>
  get no comparator, so their items are not sorted.
\<close>

theorem sort_not_applied_counterexample:
  "comparatorOf [\<lparr>q = ''is:open'', sort' = Some ''reactions'', order' = Some ''desc''\<rparr>,
                 \<lparr>q = ''is:closed'', sort' = Some ''reactions'', order' = Some ''desc''\<rparr>] = None"
  by (simp add: comparatorOf_def byName_def)

text \<open>
  The model of \<open>Array.prototype.sort\<close>, run with the comparator of a numeric member, is
  the stable insertion sort by that member.
\<close>

lemma insertSorted_insort_key:
  "insertSorted (\<lambda>a b. key a - key b) x ys = insort_key key x ys" for key :: "'a \<Rightarrow> int"
  by (induction ys) auto

lemma arraySort_sort_key:
  "arraySort (\<lambda>a b. key a - key b) xs = sort_key key xs" for key :: "'a \<Rightarrow> int"
  by (induction xs) (auto simp: insertSorted_insort_key sort_key_def)

lemma byName_comparators:
  "compareByComments = (\<lambda>a b. comments a - comments b)"
  "compareByCreated = (\<lambda>a b. created_at a - created_at b)"
  "compareByUpdated = (\<lambda>a b. updated_at a - updated_at b)"
  by (auto simp: compareByComments_def compareByCreated_def compareByUpdated_def fun_eq_iff)

lemma comparatorOf_field:
  assumes "comparatorOf qds = Some c"
  shows "(sort' (hd qds) = Some ''comments'' \<longrightarrow> c = compareByComments)
       \<and> (sort' (hd qds) = Some ''created'' \<longrightarrow> c = compareByCreated)
       \<and> (sort' (hd qds) = Some ''updated'' \<longrightarrow> c = compareByUpdated)"
  using assms
  by (cases qds) (auto simp: comparatorOf_def byName_def split: if_splits option.splits)

text \<open>
  C5, as the code has it. The sort is applied if and only if the unit has two or more
  sub-queries, every sub-query has the sort field of the first, and that field is one of
  \<open>comments\<close>, \<open>created\<close>, \<open>updated\<close>. The comparator is then the one of that field
  (\<open>compareByComments\<close>, \<open>compareByCreated\<close>, \<open>compareByUpdated\<close>), and the result holds the
  same items, ordered by that member (comment count, creation date, update date), items
  with equal values staying in the order of the concatenation. The order is the
  comparator's own, ascending: the declared order does not enter (C1). In every other
  case the items stay in the order they were fetched and concatenated in, and the
  render loop runs over them in that order.
\<close>

theorem sort_applied_iff:
  "(comparatorOf qds \<noteq> None \<longleftrightarrow>
      2 \<le> length qds \<and> (\<forall>item \<in> set qds. sort' item = sort' (hd qds)) \<and>
      sort' (hd qds) \<in> {Some ''comments'', Some ''created'', Some ''updated''})
   \<and> (\<forall>c. comparatorOf qds = Some c \<longrightarrow>
          sortItems qds xs = arraySort c xs
        \<and> set (sortItems qds xs) = set xs \<and> length (sortItems qds xs) = length xs
        \<and> (sort' (hd qds) = Some ''comments'' \<longrightarrow>
              c = compareByComments \<and> sortItems qds xs = sort_key comments xs
            \<and> sorted (map comments (sortItems qds xs))
            \<and> (\<forall>k. filter (\<lambda>y. comments y = k) (sortItems qds xs) = filter (\<lambda>y. comments y = k) xs))
        \<and> (sort' (hd qds) = Some ''created'' \<longrightarrow>
              c = compareByCreated \<and> sortItems qds xs = sort_key created_at xs
            \<and> sorted (map created_at (sortItems qds xs))
            \<and> (\<forall>k. filter (\<lambda>y. created_at y = k) (sortItems qds xs) = filter (\<lambda>y. created_at y = k) xs))
        \<and> (sort' (hd qds) = Some ''updated'' \<longrightarrow>
              c = compareByUpdated \<and> sortItems qds xs = sort_key updated_at xs
            \<and> sorted (map updated_at (sortItems qds xs))
            \<and> (\<forall>k. filter (\<lambda>y. updated_at y = k) (sortItems qds xs) = filter (\<lambda>y. updated_at y = k) xs)))
   \<and> (comparatorOf qds = None \<longrightarrow>
        sortItems qds xs = xs \<and> rendered qds xs = renderLoop xs {})"
proof (intro conjI allI impI)
  show "comparatorOf qds \<noteq> None \<longleftrightarrow>
      2 \<le> length qds \<and> (\<forall>item \<in> set qds. sort' item = sort' (hd qds)) \<and>
      sort' (hd qds) \<in> {Some ''comments'', Some ''created'', Some ''updated''}"
    by (rule comparatorOf_Some_iff)
next
  assume "comparatorOf qds = None"
  then show "sortItems qds xs = xs" "rendered qds xs = renderLoop xs {}"
    by (simp_all add: sortItems_def rendered_def)
next
  fix c assume c: "comparatorOf qds = Some c"
  then show s: "sortItems qds xs = arraySort c xs"
    using comparatorOf_not_asc[OF c] by (simp add: sortItems_def)
  note f = comparatorOf_field[OF c]
  from c comparatorOf_Some_iff[of qds]
  have "sort' (hd qds) \<in> {Some ''comments'', Some ''created'', Some ''updated''}" by simp
  with f s show "set (sortItems qds xs) = set xs" "length (sortItems qds xs) = length xs"
    by (auto simp: byName_comparators arraySort_sort_key)
  {
    assume "sort' (hd qds) = Some ''comments''"
    with f s show "c = compareByComments" "sortItems qds xs = sort_key comments xs"
      "sorted (map comments (sortItems qds xs))"
      "filter (\<lambda>y. comments y = k) (sortItems qds xs) = filter (\<lambda>y. comments y = k) xs" for k
      by (simp_all add: byName_comparators arraySort_sort_key sort_key_stable)
  }
  {
    assume "sort' (hd qds) = Some ''created''"
    with f s show "c = compareByCreated" "sortItems qds xs = sort_key created_at xs"
      "sorted (map created_at (sortItems qds xs))"
      "filter (\<lambda>y. created_at y = k) (sortItems qds xs) = filter (\<lambda>y. created_at y = k) xs" for k
      by (simp_all add: byName_comparators arraySort_sort_key sort_key_stable)
  }
  {
    assume "sort' (hd qds) = Some ''updated''"
    with f s show "c = compareByUpdated" "sortItems qds xs = sort_key updated_at xs"
      "sorted (map updated_at (sortItems qds xs))"
      "filter (\<lambda>y. updated_at y = k) (sortItems qds xs) = filter (\<lambda>y. updated_at y = k) xs" for k
      by (simp_all add: byName_comparators arraySort_sort_key sort_key_stable)
  }
qed

text \<open>
  Witness for C5: three items whose creation dates are not in order, under two
  sub-queries that both sort by \<open>created\<close> (sorted by creation date) and under two whose
  sort fields differ (left as they are).
\<close>

theorem sort_applied_iff_witness:
  "comparatorOf [\<lparr>q = ''one'', sort' = Some ''created'', order' = Some ''desc''\<rparr>,
      \<lparr>q = ''two'', sort' = Some ''created'', order' = Some ''desc''\<rparr>] = Some compareByCreated
   \<and> sortItems [\<lparr>q = ''one'', sort' = Some ''created'', order' = Some ''desc''\<rparr>,
      \<lparr>q = ''two'', sort' = Some ''created'', order' = Some ''desc''\<rparr>]
       [\<lparr>url = ''x'', repository_url = ''r'', title = ''x'', comments = 3,
          created_at = 20, updated_at = 25\<rparr>,
        \<lparr>url = ''y'', repository_url = ''r'', title = ''y'', comments = 1,
          created_at = 30, updated_at = 35\<rparr>,
        \<lparr>url = ''z'', repository_url = ''r'', title = ''z'', comments = 2,
          created_at = 10, updated_at = 40\<rparr>]
     = [\<lparr>url = ''z'', repository_url = ''r'', title = ''z'', comments = 2,
          created_at = 10, updated_at = 40\<rparr>,
        \<lparr>url = ''x'', repository_url = ''r'', title = ''x'', comments = 3,
          created_at = 20, updated_at = 25\<rparr>,
        \<lparr>url = ''y'', repository_url = ''r'', title = ''y'', comments = 1,
          created_at = 30, updated_at = 35\<rparr>]
   \<and> comparatorOf [\<lparr>q = ''one'', sort' = Some ''created'', order' = Some ''desc''\<rparr>,
      \<lparr>q = ''two'', sort' = Some ''updated'', order' = Some ''desc''\<rparr>] = None
   \<and> sortItems [\<lparr>q = ''one'', sort' = Some ''created'', order' = Some ''desc''\<rparr>,
      \<lparr>q = ''two'', sort' = Some ''updated'', order' = Some ''desc''\<rparr>]
       [\<lparr>url = ''x'', repository_url = ''r'', title = ''x'', comments = 3,
          created_at = 20, updated_at = 25\<rparr>,
        \<lparr>url = ''y'', repository_url = ''r'', title = ''y'', comments = 1,
          created_at = 30, updated_at = 35\<rparr>,
        \<lparr>url = ''z'', repository_url = ''r'', title = ''z'', comments = 2,
          created_at = 10, updated_at = 40\<rparr>]
     = [\<lparr>url = ''x'', repository_url = ''r'', title = ''x'', comments = 3,
          created_at = 20, updated_at = 25\<rparr>,
        \<lparr>url = ''y'', repository_url = ''r'', title = ''y'', comments = 1,
          created_at = 30, updated_at = 35\<rparr>,
        \<lparr>url = ''z'', repository_url = ''r'', title = ''z'', comments = 2,
          created_at = 10, updated_at = 40\<rparr>]"
proof -
  define QS where "QS = [\<lparr>q = ''one'', sort' = Some ''created'', order' = Some ''desc''\<rparr>,
      \<lparr>q = ''two'', sort' = Some ''created'', order' = Some ''desc''\<rparr>]"
  define QD where "QD = [\<lparr>q = ''one'', sort' = Some ''created'', order' = Some ''desc''\<rparr>,
      \<lparr>q = ''two'', sort' = Some ''updated'', order' = Some ''desc''\<rparr>]"
  define XS where "XS = [\<lparr>url = ''x'', repository_url = ''r'', title = ''x'', comments = 3,
          created_at = 20, updated_at = 25\<rparr>,
        \<lparr>url = ''y'', repository_url = ''r'', title = ''y'', comments = 1,
          created_at = 30, updated_at = 35\<rparr>,
        \<lparr>url = ''z'', repository_url = ''r'', title = ''z'', comments = 2,
          created_at = 10, updated_at = 40\<rparr>]"
  have cs: "comparatorOf QS = Some compareByCreated"
    by (simp add: QS_def comparatorOf_def byName_def)
  have hs: "sort' (hd QS) = Some ''created''" by (simp add: QS_def)
  have cd: "comparatorOf QD = None"
    by (simp add: QD_def comparatorOf_def byName_def)
  from sort_applied_iff [of QS XS, THEN conjunct2, THEN conjunct1, rule_format, OF cs] hs
  have "sortItems QS XS = sort_key created_at XS" by blast
  then have s: "sortItems QS XS = [XS ! 2, XS ! 0, XS ! 1]"
    by (simp add: XS_def)
  from sort_applied_iff [of QD XS, THEN conjunct2, THEN conjunct2] cd
  have d: "sortItems QD XS = XS" by blast
  from cs s cd d show ?thesis
    unfolding QS_def QD_def XS_def by simp
qed

section \<open>Properties of NotebookCellExecution\<close>

lemma newExecution_fields:
  "newExecution c now w = (e, w') \<Longrightarrow>
     token e = tokenPool w \<and> cell e = c \<and> cts e = False \<and> startTime e = now \<and>
     originalRunState e = runState (metadata (cells w c)) \<and>
     tokenPool w' = tokenPool w + 1 \<and> tokens w' = (tokens w)(c \<mapsto> tokenPool w)"
  by (auto simp: newExecution_def setMetadata_def Let_def)

lemma not_latest_noop:
  "\<not> isLatest e w \<Longrightarrow>
     resolve e outs message now w = w \<and> reject e err w = w \<and> cancel e w = (e, w)"
  by (simp add: resolve_def reject_def cancel_def)

lemma resolve_tokens: "tokens (resolve e outs message now w) = tokens w \<and> tokenPool (resolve e outs message now w) = tokenPool w"
  by (simp add: resolve_def setOutputs_def setMetadata_def)

lemma reject_tokens: "tokens (reject e err w) = tokens w \<and> tokenPool (reject e err w) = tokenPool w"
  by (simp add: reject_def setOutputs_def setMetadata_def)

lemma cancel_tokens:
  "tokenPool (snd (cancel e w)) = tokenPool w \<and>
   (tokens (snd (cancel e w)) = tokens w \<or> tokens (snd (cancel e w)) = (tokens w)(cell e := None))"
  by (simp add: cancel_def setMetadata_def)

lemma step_tokenPool: "step w w' \<Longrightarrow> tokenPool w \<le> tokenPool w'"
proof (induction rule: step.induct)
  case (step_new w c now)
  then show ?case using newExecution_fields[of c now w] by (metis le_add1 prod.collapse)
next
  case (step_cancel w e)
  then show ?case by (simp add: cancel_tokens)
next
  case (step_resolve w e outs message now)
  then show ?case by (simp add: resolve_tokens)
next
  case (step_reject w e err)
  then show ?case by (simp add: reject_tokens)
qed

lemma steps_tokenPool: "step\<^sup>*\<^sup>* w w' \<Longrightarrow> tokenPool w \<le> tokenPool w'"
  by (induction rule: rtranclp_induct) (auto dest: step_tokenPool)

lemma step_stale: "step w w' \<Longrightarrow> stale tok c w \<Longrightarrow> stale tok c w'"
proof (induction rule: step.induct)
  case (step_new w c' now)
  obtain e w1 where n: "newExecution c' now w = (e, w1)" by fastforce
  from newExecution_fields[OF n] step_new n show ?case
    by (auto simp: stale_def)
next
  case (step_cancel w e)
  then show ?case using cancel_tokens[of e w] by (auto simp: stale_def split: if_splits)
next
  case (step_resolve w e outs message now)
  then show ?case by (simp add: stale_def resolve_tokens)
next
  case (step_reject w e err)
  then show ?case by (simp add: stale_def reject_tokens)
qed

lemma steps_stale: "step\<^sup>*\<^sup>* w w' \<Longrightarrow> stale tok c w \<Longrightarrow> stale tok c w'"
  by (induction rule: rtranclp_induct) (auto dest: step_stale)

lemma stale_not_latest: "stale (token e) (cell e) w \<Longrightarrow> \<not> isLatest e w"
  by (simp add: stale_def isLatest_def)

lemma cancel_stale:
  "token e < tokenPool w \<Longrightarrow> stale (token e) (cell e) (snd (cancel e w))"
  by (auto simp: stale_def cancel_def isLatest_def setMetadata_def)

text \<open>
  C6. (1) A run that is not the latest for its cell (the token it captured is not the
  cell's current token) changes nothing when it resolves, rejects or cancels.
  (2) The token counter never decreases, and (3) an execution created later, for any
  cell, has a greater token than one created earlier. (4) Once a newer execution has
  been created for the same cell, the older one is never the latest again, whatever
  happens in between and afterwards, so its resolve and reject commit nothing. (5) The
  same holds for a run from the moment its cancel has been called.
\<close>

theorem generation_guard:
  "(\<not> isLatest e w \<longrightarrow>
      resolve e outs message now w = w \<and> reject e err w = w \<and> cancel e w = (e, w))
   \<and> (step\<^sup>*\<^sup>* w w' \<longrightarrow> tokenPool w \<le> tokenPool w')
   \<and> (newExecution c ta wa = (ea, wb) \<and> step\<^sup>*\<^sup>* wb wc \<and> newExecution c' tb wc = (eb, wd)
        \<longrightarrow> token ea < token eb)
   \<and> (newExecution c ta wa = (ea, wb) \<and> step\<^sup>*\<^sup>* wb wc \<and> newExecution c tb wc = (eb, wd)
        \<and> step\<^sup>*\<^sup>* wd we
        \<longrightarrow> \<not> isLatest ea we \<and> resolve ea outs message now we = we \<and> reject ea err we = we)
   \<and> (newExecution c ta wa = (ea, wb) \<and> step\<^sup>*\<^sup>* wb wc \<and> step\<^sup>*\<^sup>* (snd (cancel ea wc)) wg
        \<longrightarrow> \<not> isLatest ea wg \<and> resolve ea outs message now wg = wg \<and> reject ea err wg = wg)"
proof (intro conjI impI)
  assume "\<not> isLatest e w"
  then show "resolve e outs message now w = w" "reject e err w = w" "cancel e w = (e, w)"
    by (simp_all add: not_latest_noop)
next
  assume "step\<^sup>*\<^sup>* w w'"
  then show "tokenPool w \<le> tokenPool w'" by (rule steps_tokenPool)
next
  assume a: "newExecution c ta wa = (ea, wb) \<and> step\<^sup>*\<^sup>* wb wc \<and> newExecution c' tb wc = (eb, wd)"
  then have "token ea < tokenPool wb" "tokenPool wb \<le> tokenPool wc" "token eb = tokenPool wc"
    using newExecution_fields[of c ta wa ea wb] newExecution_fields[of c' tb wc eb wd]
      steps_tokenPool[of wb wc] by auto
  then show "token ea < token eb" by simp
next
  assume a: "newExecution c ta wa = (ea, wb) \<and> step\<^sup>*\<^sup>* wb wc \<and> newExecution c tb wc = (eb, wd)
        \<and> step\<^sup>*\<^sup>* wd we"
  then have f: "token ea < tokenPool wb" "tokenPool wb \<le> tokenPool wc" "cell ea = c"
      "tokens wd = (tokens wc)(c \<mapsto> tokenPool wc)" "tokenPool wd = tokenPool wc + 1"
    using newExecution_fields[of c ta wa ea wb] newExecution_fields[of c tb wc eb wd]
      steps_tokenPool[of wb wc] by auto
  then have "stale (token ea) (cell ea) wd" by (simp add: stale_def)
  with a have "stale (token ea) (cell ea) we" using steps_stale by blast
  then have n: "\<not> isLatest ea we" by (rule stale_not_latest)
  then show "\<not> isLatest ea we" "resolve ea outs message now we = we" "reject ea err we = we"
    by (simp_all add: not_latest_noop)
next
  assume a: "newExecution c ta wa = (ea, wb) \<and> step\<^sup>*\<^sup>* wb wc \<and> step\<^sup>*\<^sup>* (snd (cancel ea wc)) wg"
  then have "token ea < tokenPool wc"
    using newExecution_fields[of c ta wa ea wb] steps_tokenPool[of wb wc] by auto
  then have "stale (token ea) (cell ea) (snd (cancel ea wc))" by (rule cancel_stale)
  with a have "stale (token ea) (cell ea) wg" using steps_stale by blast
  then have n: "\<not> isLatest ea wg" by (rule stale_not_latest)
  then show "\<not> isLatest ea wg" "resolve ea outs message now wg = wg" "reject ea err wg = wg"
    by (simp_all add: not_latest_noop)
qed

text \<open>
  Witness for C6: two executions created in a row for cell 0, from the initial state;
  the first has the smaller token and its resolve leaves the state unchanged.
\<close>

theorem generation_guard_witness:
  "token (fst (newExecution 0 10 (initialWorld (\<lambda>c. \<lparr>metadata = \<lparr>runState = Some Idle,
        runStartTime = None, lastRunDuration = None, statusMessage = None\<rparr>, outputs = []\<rparr>))))
     < token (fst (newExecution 0 20 (snd (newExecution 0 10 (initialWorld (\<lambda>c. \<lparr>metadata = \<lparr>runState = Some Idle,
        runStartTime = None, lastRunDuration = None, statusMessage = None\<rparr>, outputs = []\<rparr>))))))
   \<and> resolve (fst (newExecution 0 10 (initialWorld (\<lambda>c. \<lparr>metadata = \<lparr>runState = Some Idle,
        runStartTime = None, lastRunDuration = None, statusMessage = None\<rparr>, outputs = []\<rparr>))))
         [] (Some ''0 results'') 30
         (snd (newExecution 0 20 (snd (newExecution 0 10 (initialWorld (\<lambda>c. \<lparr>metadata = \<lparr>runState = Some Idle,
        runStartTime = None, lastRunDuration = None, statusMessage = None\<rparr>, outputs = []\<rparr>))))))
       = snd (newExecution 0 20 (snd (newExecution 0 10 (initialWorld (\<lambda>c. \<lparr>metadata = \<lparr>runState = Some Idle,
        runStartTime = None, lastRunDuration = None, statusMessage = None\<rparr>, outputs = []\<rparr>)))))"
proof -
  define w0 where "w0 = initialWorld (\<lambda>c. \<lparr>metadata = \<lparr>runState = Some Idle,
        runStartTime = None, lastRunDuration = None, statusMessage = None\<rparr>, outputs = []\<rparr>)"
  define e1 where "e1 = fst (newExecution 0 10 w0)"
  define w1 where "w1 = snd (newExecution 0 10 w0)"
  define e2 where "e2 = fst (newExecution 0 20 w1)"
  define w3 where "w3 = snd (newExecution 0 20 w1)"
  have h1: "newExecution 0 10 w0 = (e1, w1)" by (simp add: e1_def w1_def)
  have h2: "newExecution 0 20 w1 = (e2, w3)" by (simp add: e2_def w3_def)
  have r1: "step\<^sup>*\<^sup>* w1 w1" and r3: "step\<^sup>*\<^sup>* w3 w3" by simp_all
  from generation_guard [where ea = e1 and wb = w1 and wa = w0 and c = 0 and ta = 10
      and wc = w1 and c' = 0 and tb = 20 and eb = e2 and wd = w3 and we = w3
      and outs = "[]" and message = "Some ''0 results''" and now = 30]
    h1 h2 r1 r3
  have "token e1 < token e2 \<and> resolve e1 [] (Some ''0 results'') 30 w3 = w3"
    by blast
  then show ?thesis
    unfolding e1_def e2_def w1_def w3_def w0_def .
qed

section \<open>Properties of the fetch\<close>

lemma received_simps [simp]:
  "received [] = []"
  "received (x # xs) = (case reply x of Inl err \<Rightarrow> [] | Inr response \<Rightarrow> items response) @ received xs"
  "received (xs @ ys) = received xs @ received ys"
  by (simp_all add: received_def)

lemma await_fields [simp]:
  "clock (await env st) = clock st + 1"
  "allItems (await env st) = allItems st"
  "tooLarge (await env st) = tooLarge st"
  "trace (await env st) = trace st"
  by (simp_all add: await_def split: prod.splits)

lemma await_cts: "cts (exec st) \<Longrightarrow> cts (exec (await env st))"
  by (auto simp: await_def cancel_def split: prod.splits if_splits)

lemma pagesSpec_nil: "cts (exec st) \<Longrightarrow> pagesSpec env qd pg count st None st []"
  by (simp add: pagesSpec_def)

lemma fetchPages_trace:
  "fetchPages fuel env qd pg count st = Some (r, st') \<Longrightarrow> \<exists>new. pagesSpec env qd pg count st r st' new"
proof (induction fuel arbitrary: pg count st)
  case 0
  then show ?case by simp
next
  case (Suc fuel)
  show ?case
  proof (cases "cts (exec st)")
    case True
    with Suc.prems have "r = None" "st' = st" by simp_all
    then show ?thesis using pagesSpec_nil[OF True] by blast
  next
    case False
    define rq where "rq = \<lparr>req_q = q qd, req_sort = sort' qd, req_order = order' qd,
                                per_page = 100, page = pg\<rparr>"
    define st1 where "st1 = await env st"
    show ?thesis
    proof (cases "search env (clock st) rq")
      case (Inl err)
      define x0 where "x0 = \<lparr>at = clock st, request = rq, reply = Inl err :: Thrown + Response\<rparr>"
      from Suc.prems False Inl have "r = Some err" "st' = st1\<lparr>trace := trace st1 @ [x0]\<rparr>"
        by (simp_all add: rq_def st1_def x0_def Let_def)
      then have "pagesSpec env qd pg count st r st' [x0]"
        using False Inl by (simp add: pagesSpec_def st1_def x0_def rq_def)
      then show ?thesis by blast
    next
      case (Inr response)
      define x0 where "x0 = \<lparr>at = clock st, request = rq, reply = Inr response :: Thrown + Response\<rparr>"
      define count1 where "count1 = count + length (items response)"
      define st2 where "st2 = st1\<lparr>allItems := allItems st1 @ items response,
                             tooLarge := (tooLarge st1 \<or> 1000 < total_count response),
                             trace := trace st1 @ [x0]\<rparr>"
      show ?thesis
      proof (cases "min 1000 (total_count response) \<le> int count1")
        case True
        with Suc.prems False Inr have "r = None" "st' = st2"
          by (simp_all add: rq_def st1_def x0_def st2_def count1_def Let_def)
        then have "pagesSpec env qd pg count st r st' [x0]"
          using False Inr True by (simp add: pagesSpec_def st1_def st2_def x0_def rq_def count1_def)
        then show ?thesis by blast
      next
        case nb: False
        with Suc.prems False Inr have rec: "fetchPages fuel env qd (pg + 1) count1 st2 = Some (r, st')"
          by (simp add: rq_def st1_def x0_def st2_def count1_def Let_def)
        from Suc.IH[OF rec] obtain new where new: "pagesSpec env qd (pg + 1) count1 st2 r st' new"
          by blast
        have "pagesSpec env qd pg count st r st' (x0 # new)"
          unfolding pagesSpec_def
        proof (intro conjI)
          show "trace st' = trace st @ x0 # new"
            using new by (simp add: pagesSpec_def st2_def st1_def)
          show "allItems st' = allItems st @ received (x0 # new)"
            using new by (simp add: pagesSpec_def st2_def st1_def x0_def)
          show "tooLarge st' = (tooLarge st \<or> (\<exists>x\<in>set (x0 # new). \<exists>resp. reply x = Inr resp \<and> 1000 < total_count resp))"
            using new by (auto simp: pagesSpec_def st2_def st1_def x0_def)
          show "clock st' = clock st + length (x0 # new)"
            using new by (simp add: pagesSpec_def st2_def st1_def)
          show "\<forall>i<length (x0 # new).
          request ((x0 # new) ! i) = \<lparr>req_q = q qd, req_sort = sort' qd, req_order = order' qd,
                                per_page = 100, page = pg + i\<rparr>
          \<and> at ((x0 # new) ! i) = clock st + i
          \<and> reply ((x0 # new) ! i) = search env (clock st + i) (request ((x0 # new) ! i))
          \<and> (Suc i < length (x0 # new) \<longrightarrow>
               (\<exists>resp. reply ((x0 # new) ! i) = Inr resp
                  \<and> int (count + length (received (take (Suc i) (x0 # new)))) < min 1000 (total_count resp)))"
          proof (intro allI impI)
            fix i assume i: "i < length (x0 # new)"
            show "request ((x0 # new) ! i) = \<lparr>req_q = q qd, req_sort = sort' qd, req_order = order' qd,
                                per_page = 100, page = pg + i\<rparr>
          \<and> at ((x0 # new) ! i) = clock st + i
          \<and> reply ((x0 # new) ! i) = search env (clock st + i) (request ((x0 # new) ! i))
          \<and> (Suc i < length (x0 # new) \<longrightarrow>
               (\<exists>resp. reply ((x0 # new) ! i) = Inr resp
                  \<and> int (count + length (received (take (Suc i) (x0 # new)))) < min 1000 (total_count resp)))"
            proof (cases i)
              case 0
              then show ?thesis using nb Inr by (auto simp: x0_def rq_def count1_def)
            next
              case (Suc j)
              with i have j: "j < length new" by simp
              from new j have
                "request (new ! j) = \<lparr>req_q = q qd, req_sort = sort' qd, req_order = order' qd,
                                per_page = 100, page = pg + 1 + j\<rparr>"
                "at (new ! j) = clock st2 + j"
                "reply (new ! j) = search env (clock st2 + j) (request (new ! j))"
                "Suc j < length new \<longrightarrow>
                   (\<exists>resp. reply (new ! j) = Inr resp
                      \<and> int (count1 + length (received (take (Suc j) new))) < min 1000 (total_count resp))"
                unfolding pagesSpec_def by blast+
              then show ?thesis using Suc
                by (auto simp: st2_def st1_def x0_def count1_def)
            qed
          qed
          show "r = None \<longrightarrow> (\<forall>x\<in>set (x0 # new). \<exists>resp. reply x = Inr resp)"
            using new by (simp add: pagesSpec_def x0_def)
          show "r = None \<and> \<not> cts (exec st') \<longrightarrow>
           x0 # new \<noteq> [] \<and> (\<exists>resp. reply (last (x0 # new)) = Inr resp
              \<and> min 1000 (total_count resp) \<le> int (count + length (received (x0 # new))))"
            using new by (auto simp: pagesSpec_def x0_def count1_def)
          show "\<forall>err. r = Some err \<longrightarrow> x0 # new \<noteq> [] \<and> reply (last (x0 # new)) = Inl err"
            using new by (auto simp: pagesSpec_def)
          show "cts (exec st) \<longrightarrow> x0 # new = []"
            using False by simp
        qed
        then show ?thesis by blast
      qed
    qed
  qed
qed

lemma fetchPages_invariant:
  assumes step: "\<And>s s' x. P s \<Longrightarrow> \<not> cts (exec s) \<Longrightarrow> at x = clock s \<Longrightarrow>
            exec s' = exec (await env s) \<Longrightarrow> world s' = world (await env s) \<Longrightarrow>
            clock s' = clock s + 1 \<Longrightarrow> trace s' = trace s @ [x] \<Longrightarrow> P s'"
  shows "P st \<Longrightarrow> fetchPages fuel env qd pg count st = Some (r, st') \<Longrightarrow> P st'"
proof (induction fuel arbitrary: pg count st)
  case 0
  then show ?case by simp
next
  case (Suc fuel)
  show ?case
  proof (cases "cts (exec st)")
    case True
    with Suc.prems show ?thesis by simp
  next
    case False
    define rq where "rq = \<lparr>req_q = q qd, req_sort = sort' qd, req_order = order' qd,
                                per_page = 100, page = pg\<rparr>"
    show ?thesis
    proof (cases "search env (clock st) rq")
      case (Inl err)
      with Suc.prems False
      have st': "st' = (await env st)\<lparr>trace := trace (await env st) @ [\<lparr>at = clock st, request = rq, reply = Inl err\<rparr>]\<rparr>"
        by (simp add: rq_def Let_def)
      show ?thesis
        by (rule step[OF Suc.prems(1) False, of "\<lparr>at = clock st, request = rq, reply = Inl err\<rparr>"])
           (simp_all add: st')
    next
      case (Inr response)
      define st2 where "st2 = (await env st)\<lparr>allItems := allItems (await env st) @ items response,
                             tooLarge := (tooLarge (await env st) \<or> 1000 < total_count response),
                             trace := trace (await env st) @ [\<lparr>at = clock st, request = rq, reply = Inr response\<rparr>]\<rparr>"
      have P2: "P st2"
        by (rule step[OF Suc.prems(1) False, of "\<lparr>at = clock st, request = rq, reply = Inr response\<rparr>"])
           (simp_all add: st2_def)
      show ?thesis
      proof (cases "min 1000 (total_count response) \<le> int (count + length (items response))")
        case True
        with Suc.prems False Inr have "st' = st2"
          by (simp add: rq_def st2_def Let_def)
        with P2 show ?thesis by simp
      next
        case nb: False
        with Suc.prems False Inr
        have rec: "fetchPages fuel env qd (pg + 1) (count + length (items response)) st2 = Some (r, st')"
          by (simp add: rq_def st2_def Let_def)
        from Suc.IH[OF P2 rec] show ?thesis .
      qed
    qed
  qed
qed

lemma fetchAll_invariant:
  assumes step: "\<And>s s' x. P s \<Longrightarrow> \<not> cts (exec s) \<Longrightarrow> at x = clock s \<Longrightarrow>
            exec s' = exec (await env s) \<Longrightarrow> world s' = world (await env s) \<Longrightarrow>
            clock s' = clock s + 1 \<Longrightarrow> trace s' = trace s @ [x] \<Longrightarrow> P s'"
    and aw: "\<And>s. P s \<Longrightarrow> P (await env s)"
  shows "P st \<Longrightarrow> fetchAll fuel env qds st = Some (r, st') \<Longrightarrow> P st'"
proof (induction qds arbitrary: st)
  case Nil
  then show ?case by simp
next
  case (Cons qd rest)
  have P1: "P (await env st)" using Cons.prems(1) by (rule aw)
  show ?case
  proof (cases "lib env (clock st)")
    case (Some err)
    with Cons.prems have "st' = await env st" by (simp add: Let_def)
    with P1 show ?thesis by simp
  next
    case None
    show ?thesis
    proof (cases "fetchPages fuel env qd 1 0 (await env st)")
      case n: None
      with Cons.prems None show ?thesis by (simp add: Let_def)
    next
      case (Some res)
      obtain r2 st2 where res: "res = (r2, st2)" by (cases res)
      have fp: "fetchPages fuel env qd 1 0 (await env st) = Some (r2, st2)"
        using Some res by simp
      have P2: "P st2"
        by (rule fetchPages_invariant[where P = P and env = env, OF _ P1 fp]) (erule (6) step)
      show ?thesis
      proof (cases r2)
        case n2: None
        with Cons.prems None Some res have "fetchAll fuel env rest st2 = Some (r, st')"
          by (simp add: Let_def)
        from Cons.IH[OF P2 this] show ?thesis .
      next
        case (Some err)
        with Cons.prems None \<open>fetchPages fuel env qd 1 0 (await env st) = Some res\<close> res
        have "st' = st2" by (simp add: Let_def)
        with P2 show ?thesis by simp
      qed
    qed
  qed
qed

lemma await_cancelSeen: "cancelSeen env st \<Longrightarrow> cancelSeen env (await env st)"
  by (auto simp: cancelSeen_def await_def cancel_def less_Suc_eq split: prod.splits if_splits)

lemma quiet_step:
  assumes "quiet env n s" "\<not> cts (exec s)" "at x = clock s"
    "exec s' = exec (await env s)" "world s' = world (await env s)"
    "clock s' = clock s + 1" "trace s' = trace s @ [x]"
  shows "quiet env n s'"
proof -
  have cs: "cancelSeen env (await env s)"
    using assms(1) by (simp add: quiet_def await_cancelSeen)
  then have "cancelSeen env s'"
    using assms(4,5,6) by (simp add: cancelSeen_def)
  moreover have "\<forall>k<at x. \<not> cancelFires env k"
    using assms(1,2,3) by (auto simp: quiet_def cancelSeen_def)
  moreover have "set (drop n (trace s')) \<subseteq> set (drop n (trace s)) \<union> {x}"
    using assms(7) by (auto dest: in_set_dropD)
  ultimately show ?thesis
    using assms(1) unfolding quiet_def by blast
qed

lemma quiet_await: "quiet env n s \<Longrightarrow> quiet env n (await env s)"
  by (simp add: quiet_def await_cancelSeen)

lemma fetchPages_quiet:
  "quiet env n st \<Longrightarrow> fetchPages fuel env qd pg count st = Some (r, st') \<Longrightarrow> quiet env n st'"
  by (rule fetchPages_invariant[where P = "quiet env n" and env = env]) (erule (6) quiet_step)

lemma fetchAll_quiet:
  "quiet env n st \<Longrightarrow> fetchAll fuel env qds st = Some (r, st') \<Longrightarrow> quiet env n st'"
  by (rule fetchAll_invariant[where P = "quiet env n" and env = env])
     (erule (6) quiet_step, erule quiet_await)

lemma fetchPages_returns:
  "cancelSeen env st \<Longrightarrow> cancelFires env k \<Longrightarrow> 0 < fuel \<Longrightarrow> Suc k < clock st + fuel \<Longrightarrow>
     \<exists>res. fetchPages fuel env qd pg count st = Some res"
proof (induction fuel arbitrary: pg count st)
  case 0
  then show ?case by simp
next
  case (Suc fuel)
  show ?case
  proof (cases "cts (exec st)")
    case True
    then show ?thesis by simp
  next
    case False
    with Suc.prems have k: "clock st \<le> k"
      by (auto simp: cancelSeen_def not_less[symmetric])
    define rq where "rq = \<lparr>req_q = q qd, req_sort = sort' qd, req_order = order' qd,
                                per_page = 100, page = pg\<rparr>"
    show ?thesis
    proof (cases "search env (clock st) rq")
      case (Inl err)
      with False show ?thesis by (simp add: rq_def Let_def)
    next
      case (Inr response)
      define st2 where "st2 = (await env st)\<lparr>allItems := allItems (await env st) @ items response,
                             tooLarge := (tooLarge (await env st) \<or> 1000 < total_count response),
                             trace := trace (await env st) @ [\<lparr>at = clock st, request = rq, reply = Inr response\<rparr>]\<rparr>"
      have cs: "cancelSeen env st2"
        using await_cancelSeen[OF Suc.prems(1)] by (simp add: cancelSeen_def st2_def)
      show ?thesis
      proof (cases "min 1000 (total_count response) \<le> int (count + length (items response))")
        case True
        with False Inr show ?thesis by (simp add: rq_def Let_def)
      next
        case nb: False
        have "0 < fuel" "Suc k < clock st2 + fuel"
          using k Suc.prems(4) by (simp_all add: st2_def)
        from Suc.IH[OF cs Suc.prems(2) this]
        obtain res where "fetchPages fuel env qd (pg + 1) (count + length (items response)) st2 = Some res"
          by blast
        with False Inr nb show ?thesis by (simp add: rq_def st2_def Let_def)
      qed
    qed
  qed
qed


lemma fetchPages_clock:
  "fetchPages fuel env qd pg count st = Some (r, st') \<Longrightarrow> clock st \<le> clock st'"
  using fetchPages_trace[of fuel env qd pg count st r st'] by (auto simp: pagesSpec_def)

lemma fetchPages_cancelSeen:
  "cancelSeen env st \<Longrightarrow> fetchPages fuel env qd pg count st = Some (r, st') \<Longrightarrow> cancelSeen env st'"
  using fetchPages_quiet[of env "length (trace st)" st fuel qd pg count r st']
  by (simp add: quiet_def)

lemma fetchAll_returns:
  "cancelSeen env st \<Longrightarrow> cancelFires env k \<Longrightarrow> 0 < fuel \<Longrightarrow> Suc k < clock st + fuel \<Longrightarrow>
     \<exists>res. fetchAll fuel env qds st = Some res"
proof (induction qds arbitrary: st)
  case Nil
  then show ?case by simp
next
  case (Cons qd rest)
  have cs1: "cancelSeen env (await env st)" using Cons.prems(1) by (rule await_cancelSeen)
  show ?case
  proof (cases "lib env (clock st)")
    case (Some err)
    then show ?thesis by (simp add: Let_def)
  next
    case None
    have "Suc k < clock (await env st) + fuel" using Cons.prems(4) by simp
    from fetchPages_returns[OF cs1 Cons.prems(2,3) this]
    obtain r2 st2 where fp: "fetchPages fuel env qd 1 0 (await env st) = Some (r2, st2)"
      by fastforce
    show ?thesis
    proof (cases r2)
      case n2: None
      have cs2: "cancelSeen env st2" using cs1 fp by (rule fetchPages_cancelSeen)
      have "Suc k < clock st2 + fuel"
        using fetchPages_clock[OF fp] Cons.prems(4) by simp
      from Cons.IH[OF cs2 Cons.prems(2,3) this] None fp n2 show ?thesis
        by (simp add: Let_def)
    next
      case (Some err)
      with None fp show ?thesis by (simp add: Let_def)
    qed
  qed
qed

lemma pagesSpec_unitSpec:
  assumes "pagesSpec env qd pg count st r st' new"
  shows "unitSpec st r st' new"
proof -
  have "\<forall>x\<in>set new. per_page (request x) = 100"
  proof
    fix x assume "x \<in> set new"
    then obtain i where "i < length new" "new ! i = x" by (auto simp: in_set_conv_nth)
    with assms show "per_page (request x) = 100" by (auto simp: pagesSpec_def)
  qed
  moreover have "\<forall>i<length new. \<forall>err. reply (new ! i) = Inl err \<longrightarrow> Suc i = length new \<and> r = Some err"
  proof (intro allI impI)
    fix i err assume i: "i < length new" and e: "reply (new ! i) = Inl err"
    from assms i e have last: "Suc i = length new"
      unfolding pagesSpec_def by (metis Inl_Inr_False Suc_lessI)
    then have ln: "last new = new ! i" using i by (metis diff_Suc_1 last_conv_nth length_0_conv nat.simps(3))
    from assms i e have "r \<noteq> None" unfolding pagesSpec_def by (metis Inl_Inr_False nth_mem)
    then obtain err' where r: "r = Some err'" by blast
    with assms have "reply (last new) = Inl err'" by (simp add: pagesSpec_def)
    with ln e r have "r = Some err" by simp
    with last show "Suc i = length new \<and> r = Some err" by simp
  qed
  ultimately show ?thesis using assms by (simp add: unitSpec_def pagesSpec_def)
qed

lemma unitSpec_await: "unitSpec (await env st) r st' new \<Longrightarrow> unitSpec st r st' new"
  by (simp add: unitSpec_def)

lemma unitSpec_trans:
  assumes "unitSpec st None st1 new1" "unitSpec st1 r st2 new2"
  shows "unitSpec st r st2 (new1 @ new2)"
proof -
  have "\<forall>i<length (new1 @ new2). \<forall>err. reply ((new1 @ new2) ! i) = Inl err \<longrightarrow>
          Suc i = length (new1 @ new2) \<and> r = Some err"
  proof (intro allI impI)
    fix i err assume i: "i < length (new1 @ new2)" and e: "reply ((new1 @ new2) ! i) = Inl err"
    show "Suc i = length (new1 @ new2) \<and> r = Some err"
    proof (cases "i < length new1")
      case True
      with assms(1) e show ?thesis
        unfolding unitSpec_def by (metis Inl_Inr_False nth_append nth_mem)
    next
      case False
      with i e have "i - length new1 < length new2" "reply (new2 ! (i - length new1)) = Inl err"
        by (simp_all add: nth_append)
      with assms(2) have "Suc (i - length new1) = length new2 \<and> r = Some err"
        unfolding unitSpec_def by blast
      with False show ?thesis by auto
    qed
  qed
  then show ?thesis using assms by (auto simp: unitSpec_def)
qed

lemma fetchAll_trace:
  "fetchAll fuel env qds st = Some (r, st') \<Longrightarrow> \<exists>new. unitSpec st r st' new"
proof (induction qds arbitrary: st)
  case Nil
  then have "unitSpec st r st' []" by (simp add: unitSpec_def)
  then show ?case by blast
next
  case (Cons qd rest)
  show ?case
  proof (cases "lib env (clock st)")
    case (Some err)
    with Cons.prems have "r = Some err" "st' = await env st" by (simp_all add: Let_def)
    then have "unitSpec st r st' []" by (simp add: unitSpec_def)
    then show ?thesis by blast
  next
    case None
    show ?thesis
    proof (cases "fetchPages fuel env qd 1 0 (await env st)")
      case n: None
      with Cons.prems None show ?thesis by (simp add: Let_def)
    next
      case (Some res)
      obtain r2 st2 where res: "res = (r2, st2)" by (cases res)
      with Some have fp: "fetchPages fuel env qd 1 0 (await env st) = Some (r2, st2)" by simp
      from fetchPages_trace[OF fp] obtain new1 where "pagesSpec env qd 1 0 (await env st) r2 st2 new1"
        by blast
      then have u1: "unitSpec st r2 st2 new1"
        by (rule unitSpec_await[OF pagesSpec_unitSpec])
      show ?thesis
      proof (cases r2)
        case n2: None
        with Cons.prems None fp have "fetchAll fuel env rest st2 = Some (r, st')"
          by (simp add: Let_def)
        from Cons.IH[OF this] obtain new2 where "unitSpec st2 r st' new2" by blast
        with u1 n2 have "unitSpec st r st' (new1 @ new2)" by (simp add: unitSpec_trans)
        then show ?thesis by blast
      next
        case (Some err)
        with Cons.prems None fp have "r = r2" "st' = st2" by (simp_all add: Let_def)
        with u1 show ?thesis by blast
      qed
    qed
  qed
qed




lemma doExecuteCell_None:
  assumes "doExecuteCell fuel env qds e w = Some (None, w', st')"
  shows "fetchAll fuel env qds (await env (initialFetchState e w)) = Some (None, st')
     \<and> w' = resolve (exec st') [RichOutput (rendered qds (allItems st')) (sortItems qds (allItems st'))]
              (Some (statusLine (length (rendered qds (allItems st'))) (tooLarge st')))
              (finishTime env) (world st')"
  using assms
  by (auto simp: doExecuteCell_def rendered_def Let_def split: option.splits prod.splits)

lemma doExecuteCell_Some:
  assumes "doExecuteCell fuel env qds e w = Some (Some err, w', st')"
  shows "fetchAll fuel env qds (await env (initialFetchState e w)) = Some (Some err, st')
     \<and> w' = reject (exec st') err (world st')"
  using assms
  by (auto simp: doExecuteCell_def Let_def split: option.splits prod.splits)

lemma doExecuteCell_fetchAll:
  assumes "doExecuteCell fuel env qds e w = Some (thrown, w', st')"
  shows "fetchAll fuel env qds (await env (initialFetchState e w)) = Some (thrown, st')"
  using assms doExecuteCell_None doExecuteCell_Some by (cases thrown) blast+

lemma unit_trace:
  assumes "doExecuteCell fuel env qds e w = Some (thrown, w', st')"
  shows "unitSpec (initialFetchState e w) thrown st' (trace st')"
proof -
  from fetchAll_trace[OF doExecuteCell_fetchAll[OF assms]]
  obtain new where u: "unitSpec (await env (initialFetchState e w)) thrown st' new" by blast
  then have "unitSpec (initialFetchState e w) thrown st' new" by (rule unitSpec_await)
  moreover from this have "trace st' = new" by (simp add: unitSpec_def initialFetchState_def)
  ultimately show ?thesis by simp
qed


lemma fetchAll_clock:
  assumes fa: "fetchAll fuel env qds st = Some (r, st')"
  shows "clock st \<le> clock st'"
  by (rule fetchAll_invariant[where P = "\<lambda>s. clock st \<le> clock s" and env = env, OF _ _ _ fa])
     simp_all

lemma doExecuteCell_clock:
  assumes "doExecuteCell fuel env qds e w = Some (thrown, w', st')"
  shows "0 < clock st'"
  using fetchAll_clock[OF doExecuteCell_fetchAll[OF assms]] by simp


section \<open>Cancellation and failure of a run\<close>

lemma await_exec_world:
  "exec (await env s) = (if cancelFires env (clock s) then fst (cancel (exec s) (world s)) else exec s)"
  "world (await env s) = (if cancelFires env (clock s) then snd (cancel (exec s) (world s)) else world s)"
  by (simp_all add: await_def split: prod.splits)

lemma cancel_latest:
  "isLatest e w \<Longrightarrow> fst (cancel e w) = e\<lparr>cts := True\<rparr>"
  by (simp add: cancel_def)

lemma cancel_again:
  "isLatest e w \<Longrightarrow> cancel (e\<lparr>cts := True\<rparr>) (snd (cancel e w)) = (e\<lparr>cts := True\<rparr>, snd (cancel e w))"
  by (simp add: cancel_def isLatest_def setMetadata_def)

lemma runWorld_await: "runWorld e w1 env s \<Longrightarrow> runWorld e w1 env (await env s)"
proof -
  assume rw: "runWorld e w1 env s"
  then have l: "isLatest e w1" "\<not> cts e" by (simp_all add: runWorld_def)
  have ex: "(\<exists>k<clock (await env s). cancelFires env k) \<longleftrightarrow>
              (\<exists>k<clock s. cancelFires env k) \<or> cancelFires env (clock s)"
    by (auto simp: less_Suc_eq)
  show ?thesis
  proof (cases "\<exists>k<clock s. cancelFires env k")
    case True
    with rw have "world s = snd (cancel e w1)" "exec s = e\<lparr>cts := True\<rparr>"
      by (simp_all add: runWorld_def)
    then have "world (await env s) = snd (cancel e w1)" "exec (await env s) = e\<lparr>cts := True\<rparr>"
      using cancel_again[OF l(1)] by (simp_all add: await_exec_world)
    moreover from True ex have "\<exists>k<clock (await env s). cancelFires env k" by blast
    ultimately show ?thesis using l unfolding runWorld_def by (simp only: if_True simp_thms)
  next
    case False
    with rw have ws: "world s = w1" "exec s = e"
      by (simp_all add: runWorld_def)
    show ?thesis
    proof (cases "cancelFires env (clock s)")
      case True
      with ws have "world (await env s) = snd (cancel e w1)" "exec (await env s) = e\<lparr>cts := True\<rparr>"
        using cancel_latest[OF l(1)] by (simp_all add: await_exec_world)
      moreover from True ex have "\<exists>k<clock (await env s). cancelFires env k" by blast
      ultimately show ?thesis using l unfolding runWorld_def by (simp only: if_True simp_thms)
    next
      case nf: False
      with ws have "world (await env s) = w1" "exec (await env s) = e"
        by (simp_all add: await_exec_world)
      moreover from False nf ex have "\<not> (\<exists>k<clock (await env s). cancelFires env k)" by blast
      ultimately show ?thesis using l unfolding runWorld_def by (simp only: if_False simp_thms)
    qed
  qed
qed

lemma runWorld_step:
  assumes "runWorld e w1 env s"
    "exec s' = exec (await env s)" "world s' = world (await env s)" "clock s' = clock s + 1"
  shows "runWorld e w1 env s'"
proof -
  have "runWorld e w1 env (await env s)" using assms(1) by (rule runWorld_await)
  then show ?thesis using assms(2,3,4) by (simp add: runWorld_def)
qed

lemma fetchAll_runWorld:
  "runWorld e w1 env st \<Longrightarrow> fetchAll fuel env qds st = Some (r, st') \<Longrightarrow> runWorld e w1 env st'"
  by (rule fetchAll_invariant[where P = "runWorld e w1 env" and env = env])
     (erule runWorld_step, assumption+, erule runWorld_await)

lemma newExecution_cells:
  "newExecution c now w = (e, w') \<Longrightarrow>
     isLatest e w' \<and>
     cells w' = (cells w)(c := (cells w c)\<lparr>metadata :=
        (metadata (cells w c))\<lparr>runState := Some Running, runStartTime := Some now\<rparr>\<rparr>)"
  by (auto simp: newExecution_def setMetadata_def isLatest_def Let_def)

lemma cancel_cells:
  "isLatest e w \<Longrightarrow>
     cells (snd (cancel e w)) = (cells w)(cell e := (cells w (cell e))\<lparr>metadata :=
        (metadata (cells w (cell e)))\<lparr>runState := originalRunState e\<rparr>\<rparr>)
     \<and> \<not> isLatest (e\<lparr>cts := True\<rparr>) (snd (cancel e w))"
  by (simp add: cancel_def setMetadata_def isLatest_def)

lemma reject_cells:
  "isLatest e w \<Longrightarrow>
     runState (metadata (cells (reject e err w) (cell e))) = Some Error
     \<and> statusMessage (metadata (cells (reject e err w) (cell e))) = Some ''Error''
     \<and> outputs (cells (reject e err w) (cell e)) =
         [ErrorOutput (if isError err \<and> errName err \<noteq> [] then errName err else ''error'')
                      (if isError err \<and> errMessage err \<noteq> [] then errMessage err else json err)]"
  by (simp add: reject_def setOutputs_def setMetadata_def)

lemma doExecuteCell_world:
  assumes "doExecuteCell fuel env qds e w = Some (thrown, w', st')"
  shows "(\<not> isLatest (exec st') (world st') \<longrightarrow> w' = world st')
       \<and> (\<forall>err. thrown = Some err \<longrightarrow> w' = reject (exec st') err (world st'))"
proof (cases thrown)
  case None
  with doExecuteCell_None[of fuel env qds e w w' st'] assms show ?thesis
    by (simp add: not_latest_noop)
next
  case (Some err)
  with doExecuteCell_Some[of fuel env qds e w err w' st'] assms show ?thesis
    by (simp add: not_latest_noop)
qed

lemma doExecuteCell_returns:
  assumes "isLatest e w" "cancelFires env k"
  shows "\<exists>res. doExecuteCell (Suc (Suc k)) env qds e w = Some res"
proof -
  have "cancelSeen env (initialFetchState e w)"
    using assms(1) by (simp add: cancelSeen_def initialFetchState_def)
  then have "cancelSeen env (await env (initialFetchState e w))" by (rule await_cancelSeen)
  from fetchAll_returns[OF this assms(2), of "Suc (Suc k)" qds]
  obtain res where "fetchAll (Suc (Suc k)) env qds (await env (initialFetchState e w)) = Some res"
    by auto
  then show ?thesis
    by (cases res) (auto simp: doExecuteCell_def Let_def split: option.splits)
qed

text \<open>
  C7. For a run of an execution created for cell \<open>c\<close> in the state \<open>w0\<close>. If the host
  cancels the run during one of its awaits, then, however the fetch ends, the cell's
  run state afterwards is the run state it had before the run (the one captured at the
  start), and its status message and outputs are those from before the run: the
  cancellation reports no error, and the run state is Error only if it was before. No request is made after an await during which a cancel
  fired. An exception in a request is the last call of the run, whichever sub-query it
  belongs to, and it is what the run catches; when no cancel fired, the cell's run
  state is then Error, its status message \<open>Error\<close>, and its output the error. A run whose
  cancel fires during await \<open>k\<close> returns, with fuel \<open>k + 2\<close>.
\<close>

theorem cancel_restores_failure_rejects:
  assumes "newExecution c now w0 = (e, w1)"
  shows "(\<forall>fuel thrown w' st'. doExecuteCell fuel env qds e w1 = Some (thrown, w', st') \<longrightarrow>
           ((\<exists>k<clock st'. cancelFires env k) \<longrightarrow>
               runState (metadata (cells w' c)) = runState (metadata (cells w0 c))
             \<and> statusMessage (metadata (cells w' c)) = statusMessage (metadata (cells w0 c))
             \<and> outputs (cells w' c) = outputs (cells w0 c))
         \<and> (\<forall>x\<in>set (trace st'). \<forall>k<at x. \<not> cancelFires env k)
         \<and> (\<forall>i<length (trace st'). \<forall>err. reply (trace st' ! i) = Inl err \<longrightarrow>
               Suc i = length (trace st') \<and> thrown = Some err)
         \<and> (\<forall>err. thrown = Some err \<and> \<not> (\<exists>k<clock st'. cancelFires env k) \<longrightarrow>
               runState (metadata (cells w' c)) = Some Error
             \<and> statusMessage (metadata (cells w' c)) = Some ''Error''
             \<and> outputs (cells w' c) =
                 [ErrorOutput (if isError err \<and> errName err \<noteq> [] then errName err else ''error'')
                    (if isError err \<and> errMessage err \<noteq> [] then errMessage err else json err)]))
       \<and> (\<forall>k. cancelFires env k \<longrightarrow> (\<exists>res. doExecuteCell (Suc (Suc k)) env qds e w1 = Some res))"
proof (intro conjI allI impI ballI)
  fix k assume "cancelFires env k"
  with newExecution_cells[OF assms] show "\<exists>res. doExecuteCell (Suc (Suc k)) env qds e w1 = Some res"
    using doExecuteCell_returns[of e w1 env k qds] by blast
next
  fix fuel thrown w' st'
  assume d: "doExecuteCell fuel env qds e w1 = Some (thrown, w', st')"
  note fa = doExecuteCell_fetchAll[OF d]
  note ne = newExecution_fields[OF assms] newExecution_cells[OF assms]
  have "runWorld e w1 env (initialFetchState e w1)"
    using ne by (simp add: runWorld_def initialFetchState_def)
  then have "runWorld e w1 env (await env (initialFetchState e w1))" by (rule runWorld_await)
  from fetchAll_runWorld[OF this fa] have rw: "runWorld e w1 env st'" .
  have "quiet env 0 (initialFetchState e w1)"
    using ne by (simp add: quiet_def cancelSeen_def initialFetchState_def)
  then have "quiet env 0 (await env (initialFetchState e w1))" by (rule quiet_await)
  from fetchAll_quiet[OF this fa] have qu: "quiet env 0 st'" .
  {
    assume c: "\<exists>k<clock st'. cancelFires env k"
    with rw have ws: "world st' = snd (cancel e w1)" "exec st' = e\<lparr>cts := True\<rparr>" "isLatest e w1"
      by (simp_all add: runWorld_def)
    with cancel_cells[of e w1] have "\<not> isLatest (exec st') (world st')" by simp
    with doExecuteCell_world[OF d] ws have w': "w' = snd (cancel e w1)" by simp
    from ne have "cell e = c" "originalRunState e = runState (metadata (cells w0 c))" by simp_all
    with w' cancel_cells[OF ws(3)] ne
    show "runState (metadata (cells w' c)) = runState (metadata (cells w0 c))"
      "statusMessage (metadata (cells w' c)) = statusMessage (metadata (cells w0 c))"
      "outputs (cells w' c) = outputs (cells w0 c)"
      by simp_all
  }
  {
    fix x k assume "x \<in> set (trace st')" "k < at x"
    with qu show "\<not> cancelFires env k" by (auto simp: quiet_def)
  }
  {
    fix i err assume "i < length (trace st')" "reply (trace st' ! i) = Inl err"
    with unit_trace[OF d] show "Suc i = length (trace st')" "thrown = Some err"
      unfolding unitSpec_def by blast+
  }
  {
    fix err assume a: "thrown = Some err \<and> \<not> (\<exists>k<clock st'. cancelFires env k)"
    with rw have ws: "world st' = w1" "exec st' = e" "isLatest e w1"
      by (simp_all add: runWorld_def)
    with doExecuteCell_world[OF d] a have w': "w' = reject e err w1" by simp
    from ne have "cell e = c" by simp
    with w' reject_cells[OF ws(3), of err]
    show "runState (metadata (cells w' c)) = Some Error"
      "statusMessage (metadata (cells w' c)) = Some ''Error''"
      "outputs (cells w' c) =
                 [ErrorOutput (if isError err \<and> errName err \<noteq> [] then errName err else ''error'')
                    (if isError err \<and> errMessage err \<noteq> [] then errMessage err else json err)]"
      by simp_all
  }
qed

text \<open>
  Witness for C7: from the initial state with cell 0 idle, a run that is cancelled during
  its first await ends with the cell idle; a run whose first request fails, with no
  cancel, ends with the cell in state Error.
\<close>

theorem cancel_restores_failure_rejects_witness:
  "(\<exists>thrown w' st'.
      doExecuteCell (Suc (Suc 0))
        \<lparr>search = (\<lambda>k rq. Inr \<lparr>items = [], total_count = 5\<rparr>), lib = (\<lambda>k. None),
           cancelFires = (\<lambda>k. k = 0), finishTime = 0\<rparr>
        [\<lparr>q = ''is:open'', sort' = None, order' = None\<rparr>]
        (fst (newExecution 0 0 (initialWorld (\<lambda>c. \<lparr>metadata = \<lparr>runState = Some Idle,
           runStartTime = None, lastRunDuration = None, statusMessage = None\<rparr>, outputs = []\<rparr>))))
        (snd (newExecution 0 0 (initialWorld (\<lambda>c. \<lparr>metadata = \<lparr>runState = Some Idle,
           runStartTime = None, lastRunDuration = None, statusMessage = None\<rparr>, outputs = []\<rparr>))))
      = Some (thrown, w', st')
      \<and> runState (metadata (cells w' 0)) = Some Idle)
   \<and> (\<exists>w' st'.
      doExecuteCell (Suc 0)
        \<lparr>search = (\<lambda>k rq. Inl \<lparr>isError = True, errName = ''HttpError'',
                                 errMessage = ''Server Error'', json = ''{}''\<rparr>),
           lib = (\<lambda>k. None), cancelFires = (\<lambda>k. False), finishTime = 0\<rparr>
        [\<lparr>q = ''is:open'', sort' = None, order' = None\<rparr>]
        (fst (newExecution 0 0 (initialWorld (\<lambda>c. \<lparr>metadata = \<lparr>runState = Some Idle,
           runStartTime = None, lastRunDuration = None, statusMessage = None\<rparr>, outputs = []\<rparr>))))
        (snd (newExecution 0 0 (initialWorld (\<lambda>c. \<lparr>metadata = \<lparr>runState = Some Idle,
           runStartTime = None, lastRunDuration = None, statusMessage = None\<rparr>, outputs = []\<rparr>))))
      = Some (Some \<lparr>isError = True, errName = ''HttpError'',
                    errMessage = ''Server Error'', json = ''{}''\<rparr>, w', st')
      \<and> runState (metadata (cells w' 0)) = Some Error)"
proof -
  define EC where "EC = \<lparr>search = (\<lambda>k rq. Inr \<lparr>items = [], total_count = 5\<rparr>) :: nat \<Rightarrow> Request \<Rightarrow> Thrown + Response,
      lib = (\<lambda>k. None), cancelFires = (\<lambda>k. k = 0), finishTime = 0\<rparr>"
  define ERR where "ERR = \<lparr>isError = True, errName = ''HttpError'',
                                 errMessage = ''Server Error'', json = ''{}''\<rparr>"
  define EF where "EF = \<lparr>search = (\<lambda>k rq. Inl ERR) :: nat \<Rightarrow> Request \<Rightarrow> Thrown + Response,
           lib = (\<lambda>k. None), cancelFires = (\<lambda>k. False), finishTime = 0\<rparr>"
  define W0 where "W0 = initialWorld (\<lambda>c. \<lparr>metadata = \<lparr>runState = Some Idle,
           runStartTime = None, lastRunDuration = None, statusMessage = None\<rparr>, outputs = []\<rparr>)"
  define E1 where "E1 = fst (newExecution 0 0 W0)"
  define W1 where "W1 = snd (newExecution 0 0 W0)"
  define Q where "Q = \<lparr>q = ''is:open'', sort' = None, order' = None\<rparr>"
  have ne: "newExecution 0 0 W0 = (E1, W1)" by (simp add: E1_def W1_def)
  have idle: "runState (metadata (cells W0 0)) = Some Idle" by (simp add: W0_def initialWorld_def)
  note TC = cancel_restores_failure_rejects [OF ne, where env = EC and qds = "[Q]"]
  note TF = cancel_restores_failure_rejects [OF ne, where env = EF and qds = "[Q]"]
  have "cancelFires EC 0" by (simp add: EC_def)
  with TC [THEN conjunct2, rule_format, of 0]
  have "\<exists>res. doExecuteCell (Suc (Suc 0)) EC [Q] E1 W1 = Some res" by (simp only:)
  then obtain res where r: "doExecuteCell (Suc (Suc 0)) EC [Q] E1 W1 = Some res" ..
  obtain thrown w' st' where "res = (thrown, w', st')" by (rule prod_cases3)
  with r have d: "doExecuteCell (Suc (Suc 0)) EC [Q] E1 W1 = Some (thrown, w', st')" by (simp only:)
  from doExecuteCell_clock[OF d] have "\<exists>k<clock st'. cancelFires EC k" by (auto simp: EC_def)
  with TC [THEN conjunct1, rule_format, OF d, THEN conjunct1] idle
  have c: "runState (metadata (cells w' 0)) = Some Idle" by simp
  have st: "cts E1 = False"
    using newExecution_fields[OF ne] by simp
  have "\<exists>w' st'. doExecuteCell (Suc 0) EF [Q] E1 W1 = Some (Some ERR, w', st')"
    by (simp add: doExecuteCell_def initialFetchState_def await_def EF_def st Let_def)
  then obtain w2 st2 where d2: "doExecuteCell (Suc 0) EF [Q] E1 W1 = Some (Some ERR, w2, st2)"
    by blast
  have "\<not> (\<exists>k<clock st2. cancelFires EF k)" by (simp add: EF_def)
  with TF [THEN conjunct1, rule_format, OF d2, THEN conjunct2, THEN conjunct2, THEN conjunct2,
      rule_format, of ERR]
  have f: "runState (metadata (cells w2 0)) = Some Error" by simp
  from d c d2 f show ?thesis
    unfolding EC_def EF_def ERR_def W0_def E1_def W1_def Q_def by blast
qed

end
